theory Spec2Isabelle
  imports Complex_Main
begin

section \<open>Path-addressed editing of a JSON document\<close>

text \<open>
  The development embeds the node editor of the JSON visualiser: the helper functions of
  \<^verbatim>\<open>NodeModal/index.tsx\<close> (\<^verbatim>\<open>readValueAtPath\<close>, \<^verbatim>\<open>writeJsonAtPath\<close>,
  \<^verbatim>\<open>coerceInputValue\<close>, the merge expression and \<^verbatim>\<open>commitEdit\<close>) and of the
  editor page (\<^verbatim>\<open>setAtPath\<close>, \<^verbatim>\<open>handleNodeSave\<close>).

  Scope of the value model. A value is what \<^verbatim>\<open>JSON.parse\<close> can return, plus
  \<^verbatim>\<open>undefined\<close> and the two shapes the code itself can build on top of parsed data:
  an array with holes (a hole reads as \<^verbatim>\<open>undefined\<close>, is kept by \<^verbatim>\<open>slice\<close> and is
  printed as \<^verbatim>\<open>null\<close>, exactly like an element that is \<^verbatim>\<open>undefined\<close>, so both are the
  element \<open>JUndefined\<close>) and an array that carries named properties (created by
  \<^verbatim>\<open>cloned[head] = value\<close> when \<^verbatim>\<open>head\<close> is not an array index). The data of a value
  are its own properties: the entries of an object, the elements and named properties of an
  array, the characters of a string.

  A path segment is an arbitrary string or number, so a property access of the code can
  also name a property that is not data but is supplied by the host: the \<^verbatim>\<open>length\<close> of
  an array or string, \<^verbatim>\<open>__proto__\<close>, and whatever the prototype objects hold
  (\<^verbatim>\<open>constructor\<close>, \<^verbatim>\<open>toString\<close>, the array and string methods, ...). Such an access
  yields functions and prototype objects, may run accessors, may resize an array or throw
  \<^verbatim>\<open>RangeError\<close>. The model does not describe these values. It recognises the access and
  gives the outcome \<open>Host\<close>: nothing is stated about a run that makes one. The names
  that the prototype objects supply are a parameter of the model (\<open>host\<close>).

  Characters are the code units below 256. Numbers are never computed with by this code,
  only tested against zero, and are reals here. The module is an ES module, hence strict
  code: assigning to a property of a primitive raises \<^verbatim>\<open>TypeError\<close>. Limits of
  memory and of the length of strings and arrays are not modelled.
\<close>

subsection \<open>Property keys\<close>

text \<open>
  A path token is \<^verbatim>\<open>string | number\<close>; a number token is a non-negative integer, an
  index into an array. Used as a property name, a token is converted to a property key;
  a key is either an array index (an integer below \<open>2^32 - 1\<close>, also when written as its
  canonical decimal string) or a name.
\<close>

datatype seg = SKey string | SIdx nat

datatype pkey = KIdx nat | KName string

definition digit :: "char \<Rightarrow> bool" where
  "digit c = (c \<in> set ''0123456789'')"

definition arrayIndex :: "string \<Rightarrow> nat option" where
  "arrayIndex s =
     (if s = [] then None
      else if list_ex (\<lambda>c. \<not> digit c) s then None
      else if hd s = CHR ''0'' \<and> s \<noteq> ''0'' then None
      else (let n = foldl (\<lambda>a c. 10 * a + (of_char c - 48)) 0 s
            in if n < 4294967295 then Some n else None))"

fun dec :: "nat \<Rightarrow> string" where
  "dec n = (if n < 10 then [char_of (48 + n)] else dec (n div 10) @ [char_of (48 + n mod 10)])"

fun toPropertyKey :: "seg \<Rightarrow> pkey" where
  "toPropertyKey (SIdx n) = (if n < 4294967295 then KIdx n else KName (dec n))"
| "toPropertyKey (SKey s) = (case arrayIndex s of Some n \<Rightarrow> KIdx n | None \<Rightarrow> KName s)"

text \<open>
  The names that the host answers itself where a value has no own property of that name:
  \<^verbatim>\<open>length\<close>, \<^verbatim>\<open>__proto__\<close> and the names \<open>host\<close> of the properties of the prototype
  objects. No prototype object has a property that is an array index. The name of a
  number token is its decimal string as long as the number is below \<open>10^21\<close>; from there on
  the host writes numbers with an exponent, so the decimal strings of 22 digits and more
  are counted among the names left to the host. A path is a path of data when none of
  its segments is such a name.
\<close>

type_synonym host = "string \<Rightarrow> bool"

definition hostName :: "host \<Rightarrow> pkey \<Rightarrow> bool" where
  "hostName host k =
     (case k of
        KIdx i \<Rightarrow> False
      | KName s \<Rightarrow>
          s = ''length'' \<or> s = ''__proto__'' \<or> host s \<or> (21 < length s \<and> list_all digit s))"

definition dataPath :: "host \<Rightarrow> seg list \<Rightarrow> bool" where
  "dataPath host p = list_all (\<lambda>s. \<not> hostName host (toPropertyKey s)) p"

subsection \<open>Property lists\<close>

text \<open>
  The own properties of an object, in the order the host enumerates them: array indices
  first, ascending, then names in the order of their creation. Writing an existing key
  keeps its place.
\<close>

fun before :: "pkey \<Rightarrow> pkey \<Rightarrow> bool" where
  "before (KIdx n) (KIdx m) = (n < m)"
| "before (KIdx n) (KName t) = True"
| "before (KName s) k = False"

fun ins :: "pkey \<Rightarrow> 'v \<Rightarrow> (pkey \<times> 'v) list \<Rightarrow> (pkey \<times> 'v) list" where
  "ins k v [] = [(k, v)]"
| "ins k v (p # ps) = (if before k (fst p) then (k, v) # p # ps else p # ins k v ps)"

fun replace :: "pkey \<Rightarrow> 'v \<Rightarrow> (pkey \<times> 'v) list \<Rightarrow> (pkey \<times> 'v) list" where
  "replace k v [] = []"
| "replace k v (p # ps) = (if fst p = k then (k, v) # ps else p # replace k v ps)"

definition put :: "pkey \<Rightarrow> 'v \<Rightarrow> (pkey \<times> 'v) list \<Rightarrow> (pkey \<times> 'v) list" where
  "put k v ps = (case map_of ps k of None \<Rightarrow> ins k v ps | Some old \<Rightarrow> replace k v ps)"

text \<open>\<^verbatim>\<open>{ ...a, ...b }\<close>: the properties of \<open>a\<close>, then each property of \<open>b\<close> written over them.\<close>

definition spread :: "(pkey \<times> 'v) list \<Rightarrow> (pkey \<times> 'v) list \<Rightarrow> (pkey \<times> 'v) list" where
  "spread a b = foldl (\<lambda>acc p. put (fst p) (snd p) acc) a b"

text \<open>\<^verbatim>\<open>xs[i] = v\<close> on the elements of an array: past the end the array grows, with holes.\<close>

definition setIndex :: "'v \<Rightarrow> 'v list \<Rightarrow> nat \<Rightarrow> 'v \<Rightarrow> 'v list" where
  "setIndex hole xs i v =
     (if i < length xs then xs[i := v] else xs @ replicate (i - length xs) hole @ [v])"

subsection \<open>Values and outcomes\<close>

datatype jv =
    JUndefined
  | JNull
  | JBool bool
  | JNum real
  | JStr string
  | JArr "jv list" "(pkey \<times> jv) list"
  | JObj "(pkey \<times> jv) list"

datatype error = SyntaxError | TypeError

text \<open>
  What a statement or a call does: it returns a value, it throws, or it makes an access
  that the host answers (see above), after which the model says nothing. \<open>andThen\<close> is
  sequencing, \<open>tryCatch\<close> is \<^verbatim>\<open>try { ... } catch (error) { ... }\<close>: only what is thrown
  reaches the handler.
\<close>

datatype 'a outcome = Returns 'a | Throws error | Host

definition andThen :: "'a outcome \<Rightarrow> ('a \<Rightarrow> 'b outcome) \<Rightarrow> 'b outcome" where
  "andThen m f = (case m of Returns x \<Rightarrow> f x | Throws e \<Rightarrow> Throws e | Host \<Rightarrow> Host)"

definition tryCatch :: "'a outcome \<Rightarrow> (error \<Rightarrow> 'a outcome) \<Rightarrow> 'a outcome" where
  "tryCatch body handler =
     (case body of Returns x \<Rightarrow> Returns x | Throws e \<Rightarrow> handler e | Host \<Rightarrow> Host)"

text \<open>
  \<^verbatim>\<open>JSON.parse\<close> and \<^verbatim>\<open>JSON.stringify(_, null, 2)\<close> belong to the host, not to the
  repository: they are parameters of every function that calls them. A parser returns
  \<open>None\<close> where \<^verbatim>\<open>JSON.parse\<close> throws \<^verbatim>\<open>SyntaxError\<close>. \<^verbatim>\<open>JSON.stringify\<close> returns a
  text for every value of the model but \<^verbatim>\<open>undefined\<close>, for which it returns
  \<^verbatim>\<open>undefined\<close>: no text, and what the callers then do with it is not described.
\<close>

type_synonym parser = "string \<Rightarrow> jv option"
type_synonym printer = "jv \<Rightarrow> string"

definition jsonParse :: "parser \<Rightarrow> string \<Rightarrow> jv outcome" where
  "jsonParse parse t = (case parse t of Some v \<Rightarrow> Returns v | None \<Rightarrow> Throws SyntaxError)"

definition jsonStringify :: "printer \<Rightarrow> jv \<Rightarrow> string outcome" where
  "jsonStringify stringify v = (if v = JUndefined then Host else Returns (stringify v))"

fun truthy :: "jv \<Rightarrow> bool" where
  "truthy JUndefined = False"
| "truthy JNull = False"
| "truthy (JBool b) = b"
| "truthy (JNum x) = (x \<noteq> 0)"
| "truthy (JStr s) = (s \<noteq> [])"
| "truthy (JArr xs ps) = True"
| "truthy (JObj ps) = True"

text \<open>\<^verbatim>\<open>typeof x === "object"\<close> (true of \<^verbatim>\<open>null\<close> as well) and \<^verbatim>\<open>Array.isArray(x)\<close>.\<close>

fun typeofObject :: "jv \<Rightarrow> bool" where
  "typeofObject JNull = True"
| "typeofObject (JArr xs ps) = True"
| "typeofObject (JObj ps) = True"
| "typeofObject x = False"

fun isArray :: "jv \<Rightarrow> bool" where
  "isArray (JArr xs ps) = True"
| "isArray x = False"

text \<open>The containers of the data model (arrays and objects), and the mappings among them.\<close>

fun isContainer :: "jv \<Rightarrow> bool" where
  "isContainer (JArr xs ps) = True"
| "isContainer (JObj ps) = True"
| "isContainer x = False"

fun isMapping :: "jv \<Rightarrow> bool" where
  "isMapping (JObj ps) = True"
| "isMapping x = False"

subsection \<open>Property access\<close>

text \<open>
  The own property of a value under a key, if it has one: an entry of an object, an element
  or a named property of an array, a character of a string. The \<^verbatim>\<open>length\<close> of an array
  is the host's. \<open>ownGet\<close> reads \<^verbatim>\<open>undefined\<close> where there is no own property.
\<close>

fun own :: "jv \<Rightarrow> pkey \<Rightarrow> jv option" where
  "own (JObj ps) k = map_of ps k"
| "own (JArr xs ps) (KIdx i) = (if i < length xs then Some (xs ! i) else None)"
| "own (JArr xs ps) (KName s) = (if s = ''length'' then None else map_of ps (KName s))"
| "own (JStr t) (KIdx i) = (if i < length t then Some (JStr [t ! i]) else None)"
| "own x k = None"

definition ownGet :: "jv \<Rightarrow> pkey \<Rightarrow> jv" where
  "ownGet x k = (case own x k of Some v \<Rightarrow> v | None \<Rightarrow> JUndefined)"

text \<open>
  \<^verbatim>\<open>x[k]\<close> where \<open>x\<close> is neither \<^verbatim>\<open>null\<close> nor \<^verbatim>\<open>undefined\<close>: the own property; without
  one, the host answers for the names it supplies, and every other key reads
  \<^verbatim>\<open>undefined\<close>.
\<close>

definition getProp :: "host \<Rightarrow> jv \<Rightarrow> pkey \<Rightarrow> jv outcome" where
  "getProp host x k =
     (if own x k = None \<and> hostName host k then Host else Returns (ownGet x k))"

text \<open>\<^verbatim>\<open>x?.[k]\<close> and \<^verbatim>\<open>x[k]\<close>: on \<^verbatim>\<open>null\<close> and \<^verbatim>\<open>undefined\<close> the first yields
  \<^verbatim>\<open>undefined\<close>, the second throws.\<close>

definition optGet :: "host \<Rightarrow> jv \<Rightarrow> pkey \<Rightarrow> jv outcome" where
  "optGet host x k =
     (if x = JNull \<or> x = JUndefined then Returns JUndefined else getProp host x k)"

definition strictGet :: "host \<Rightarrow> jv \<Rightarrow> pkey \<Rightarrow> jv outcome" where
  "strictGet host x k =
     (if x = JNull \<or> x = JUndefined then Throws TypeError else getProp host x k)"

text \<open>
  \<^verbatim>\<open>x[k] = v\<close> in strict code, as the value \<open>x\<close> denotes afterwards. \<open>withProp\<close> is the
  write of an own property, which only a container takes. On \<^verbatim>\<open>null\<close> and
  \<^verbatim>\<open>undefined\<close> the assignment throws; where the value has no own property under a name
  of the host, the host decides (the setter of \<^verbatim>\<open>__proto__\<close>, the resizing of an array
  through \<^verbatim>\<open>length\<close>); on a primitive it throws.
\<close>

fun withProp :: "jv \<Rightarrow> pkey \<Rightarrow> jv \<Rightarrow> jv option" where
  "withProp (JObj ps) k v = Some (JObj (put k v ps))"
| "withProp (JArr xs ps) (KIdx i) v = Some (JArr (setIndex JUndefined xs i v) ps)"
| "withProp (JArr xs ps) (KName s) v = Some (JArr xs (put (KName s) v ps))"
| "withProp x k v = None"

definition setProp :: "host \<Rightarrow> jv \<Rightarrow> pkey \<Rightarrow> jv \<Rightarrow> jv outcome" where
  "setProp host x k v =
     (if x = JNull \<or> x = JUndefined then Throws TypeError
      else if own x k = None \<and> hostName host k then Host
      else (case withProp x k v of Some x' \<Rightarrow> Returns x' | None \<Rightarrow> Throws TypeError))"

subsection \<open>\<^verbatim>\<open>readValueAtPath\<close>\<close>

text \<open>The loop \<^verbatim>\<open>for (i = 0; i < path.length; i++) current = current?.[path[i]]\<close>.\<close>

fun readLoop :: "host \<Rightarrow> jv \<Rightarrow> seg list \<Rightarrow> jv outcome" where
  "readLoop host current [] = Returns current"
| "readLoop host current (s # rest) =
     (case optGet host current (toPropertyKey s) of
        Returns next \<Rightarrow> readLoop host next rest
      | Throws e \<Rightarrow> Throws e
      | Host \<Rightarrow> Host)"

text \<open>The body of the \<^verbatim>\<open>try\<close> block, then the function with its \<^verbatim>\<open>catch\<close>.
  The path parameter is optional.\<close>

definition readValueAtPath_try :: "host \<Rightarrow> parser \<Rightarrow> string \<Rightarrow> seg list option \<Rightarrow> jv outcome" where
  "readValueAtPath_try host parse json path =
     andThen (jsonParse parse json) (\<lambda>obj.
       case path of
         None \<Rightarrow> Returns obj
       | Some p \<Rightarrow> if length p = 0 then Returns obj else readLoop host obj p)"

definition readValueAtPath :: "host \<Rightarrow> parser \<Rightarrow> string \<Rightarrow> seg list option \<Rightarrow> jv outcome" where
  "readValueAtPath host parse json path =
     tryCatch (readValueAtPath_try host parse json path) (\<lambda>error. Returns JNull)"

text \<open>
  The step of the loop yields \<^verbatim>\<open>undefined\<close> without a question to the host: the current
  value is \<^verbatim>\<open>null\<close> or \<^verbatim>\<open>undefined\<close>, or it has no own property under the key (the
  key is missing from the object or the array, the index is past the end of the array or
  of the string, the value is a boolean or a number) and the key is not a name of the
  host.
\<close>

definition noProperty :: "host \<Rightarrow> jv \<Rightarrow> pkey \<Rightarrow> bool" where
  "noProperty host x k =
     (x = JNull \<or> x = JUndefined \<or> (own x k = None \<and> \<not> hostName host k))"

subsection \<open>\<^verbatim>\<open>writeJsonAtPath\<close>\<close>

text \<open>
  \<^verbatim>\<open>current = obj; for (i = 0; i < path.length - 1; i++) current = current[path[i]];
  current[path[path.length - 1]] = newValue\<close>, for a non-empty path. The document was
  parsed a moment ago, so no other reference reaches into it and the assignment through
  \<open>current\<close> is the update of \<open>obj\<close> at that position. The result is \<open>obj\<close> after the
  assignment, or the error thrown on the way.
\<close>

fun assignAt :: "host \<Rightarrow> jv \<Rightarrow> seg list \<Rightarrow> jv \<Rightarrow> jv outcome" where
  "assignAt host current [] v = Returns v"
| "assignAt host current [s] v = setProp host current (toPropertyKey s) v"
| "assignAt host current (s # t # rest) v =
     (case strictGet host current (toPropertyKey s) of
        Returns child \<Rightarrow>
          (case assignAt host child (t # rest) v of
             Returns child' \<Rightarrow> setProp host current (toPropertyKey s) child'
           | Throws e \<Rightarrow> Throws e
           | Host \<Rightarrow> Host)
      | Throws e \<Rightarrow> Throws e
      | Host \<Rightarrow> Host)"

definition writeJsonAtPath_try ::
  "host \<Rightarrow> parser \<Rightarrow> printer \<Rightarrow> string \<Rightarrow> seg list option \<Rightarrow> jv \<Rightarrow> string outcome" where
  "writeJsonAtPath_try host parse stringify json path newValue =
     andThen (jsonParse parse json) (\<lambda>obj.
       case path of
         None \<Rightarrow> jsonStringify stringify newValue
       | Some p \<Rightarrow>
           if length p = 0 then jsonStringify stringify newValue
           else andThen (assignAt host obj p newValue) (\<lambda>obj'. jsonStringify stringify obj'))"

definition writeJsonAtPath ::
  "host \<Rightarrow> parser \<Rightarrow> printer \<Rightarrow> string \<Rightarrow> seg list option \<Rightarrow> jv \<Rightarrow> string outcome" where
  "writeJsonAtPath host parse stringify json path newValue =
     tryCatch (writeJsonAtPath_try host parse stringify json path newValue)
       (\<lambda>error. Returns json)"


subsection \<open>\<^verbatim>\<open>coerceInputValue\<close>\<close>

text \<open>\<^verbatim>\<open>String.prototype.trim\<close> removes white space and line terminators at both ends.\<close>

definition whitespace :: "char \<Rightarrow> bool" where
  "whitespace c =
     (c \<in> set [CHR 0x09, CHR 0x0A, CHR 0x0B, CHR 0x0C, CHR 0x0D, CHR 0x20, CHR 0xA0])"

definition trim :: "string \<Rightarrow> string" where
  "trim s = rev (dropWhile whitespace (rev (dropWhile whitespace s)))"

text \<open>The call of \<^verbatim>\<open>trim\<close> and the test for the empty text stand before the \<^verbatim>\<open>try\<close>.\<close>

definition coerceInputValue :: "parser \<Rightarrow> string \<Rightarrow> jv outcome" where
  "coerceInputValue parse content =
     (let trimmed = trim content
      in if trimmed = [] then Returns (JStr [])
         else tryCatch (jsonParse parse trimmed) (\<lambda>error. Returns (JStr content)))"

subsection \<open>The merge of \<^verbatim>\<open>commitEdit\<close>\<close>

text \<open>The conditional expression bound to \<^verbatim>\<open>merged\<close>.\<close>

definition merged :: "jv \<Rightarrow> jv \<Rightarrow> jv" where
  "merged originalFull newValue =
     (if truthy originalFull \<and> typeofObject originalFull \<and> \<not> isArray originalFull \<and>
         truthy newValue \<and> typeofObject newValue \<and> \<not> isArray newValue
      then (case (originalFull, newValue) of
              (JObj a, JObj b) \<Rightarrow> JObj (spread a b)
            | other \<Rightarrow> newValue)
      else newValue)"

subsection \<open>\<^verbatim>\<open>setAtPath\<close>\<close>

text \<open>
  \<^verbatim>\<open>cloned\<close> is \<^verbatim>\<open>root.slice()\<close> (the elements of the array, without its named
  properties), \<^verbatim>\<open>{ ...root }\<close> or a new empty container, an array for a number token
  and an object for a string token.
\<close>

definition emptyFor :: "seg \<Rightarrow> jv" where
  "emptyFor head = (case head of SIdx n \<Rightarrow> JArr [] [] | SKey s \<Rightarrow> JObj [])"

fun clone :: "jv \<Rightarrow> seg \<Rightarrow> jv" where
  "clone (JArr xs ps) head = JArr xs []"
| "clone (JObj ps) head = JObj ps"
| "clone r head = emptyFor head"

fun setAtPath :: "host \<Rightarrow> jv \<Rightarrow> seg list \<Rightarrow> jv \<Rightarrow> jv outcome" where
  "setAtPath host r [] v = Returns v"
| "setAtPath host r (head # rest) v =
     (let cloned = clone r head
      in if length rest = 0 then setProp host cloned (toPropertyKey head) v
         else (case getProp host cloned (toPropertyKey head) of
                 Returns nextLevel \<Rightarrow>
                   (case setAtPath host nextLevel rest v of
                      Returns sub \<Rightarrow> setProp host cloned (toPropertyKey head) sub
                    | Throws e \<Rightarrow> Throws e
                    | Host \<Rightarrow> Host)
               | Throws e \<Rightarrow> Throws e
               | Host \<Rightarrow> Host))"

text \<open>
  The structure that the specification describes for a path healed from nothing: for each
  segment a new container, a sequence for a number and a mapping for a string, whose one
  entry, at that segment, is the structure for the rest of the path; at the end, the value.
  An index leaves the elements before it as holes.
\<close>

fun healed :: "seg list \<Rightarrow> jv \<Rightarrow> jv" where
  "healed [] v = v"
| "healed (SKey s # rest) v = JObj [(toPropertyKey (SKey s), healed rest v)]"
| "healed (SIdx n # rest) v =
     (case toPropertyKey (SIdx n) of
        KIdx i \<Rightarrow> JArr (replicate i JUndefined @ [healed rest v]) []
      | KName t \<Rightarrow> JArr [] [(KName t, healed rest v)])"

subsection \<open>The stores and the two save handlers\<close>

text \<open>
  Modelled from the spec: the three stores (\<^verbatim>\<open>useJson\<close>, \<^verbatim>\<open>useFile\<close>, \<^verbatim>\<open>useGraph\<close>) are
  not among the sources. Following section 6 of the specification each is a cell with a
  setter: \<^verbatim>\<open>setJson(text)\<close>, \<^verbatim>\<open>setContents({contents, hasChanges})\<close> and
  \<^verbatim>\<open>setGraph(parsedValueOrRawText)\<close>, and a setter writes its own cell only. The record
  also holds the state of the modal (\<^verbatim>\<open>editing\<close>, \<^verbatim>\<open>draft\<close>, \<^verbatim>\<open>baseline\<close>).
\<close>

datatype graphInput = Parsed jv | Raw string

record editor =
  json :: string
  contents :: string
  hasChanges :: bool
  graph :: graphInput
  editing :: bool
  draft :: string
  baseline :: string

text \<open>
  \<^verbatim>\<open>commitEdit\<close>: the statements of its \<^verbatim>\<open>try\<close> block in sequence, and its \<^verbatim>\<open>catch\<close>,
  which logs, raises the alert and leaves every store as it is. The inner \<^verbatim>\<open>try\<close>
  hands the parsed text to the graph store, or the text itself when it does not parse.
  The argument \<open>path\<close> is \<^verbatim>\<open>nodeData?.path\<close>.
\<close>

definition commitEdit ::
  "host \<Rightarrow> parser \<Rightarrow> printer \<Rightarrow> seg list option \<Rightarrow> editor \<Rightarrow> editor outcome" where
  "commitEdit host parse stringify path st =
     tryCatch
       (andThen (coerceInputValue parse (draft st)) (\<lambda>newValue.
        andThen (readValueAtPath host parse (json st) path) (\<lambda>originalFull.
        andThen (writeJsonAtPath host parse stringify (json st) path (merged originalFull newValue))
          (\<lambda>updated.
             Returns (st\<lparr> json := updated,
                           contents := updated,
                           hasChanges := True,
                           graph := (case parse updated of Some g \<Rightarrow> Parsed g | None \<Rightarrow> Raw updated),
                           editing := False,
                           baseline := draft st \<rparr>)))))
       (\<lambda>error. Returns st)"

text \<open>
  \<^verbatim>\<open>handleNodeSave\<close>, the listener of the page for the event \<^verbatim>\<open>nodeModalSave\<close> with
  detail \<^verbatim>\<open>{path, value}\<close>. Its \<^verbatim>\<open>catch\<close> only logs to the console. Its one write is
  \<^verbatim>\<open>setContents\<close>.
\<close>

definition handleNodeSave ::
  "host \<Rightarrow> parser \<Rightarrow> printer \<Rightarrow> seg list \<Rightarrow> jv \<Rightarrow> editor \<Rightarrow> editor outcome" where
  "handleNodeSave host parse stringify path v st =
     tryCatch
       (andThen (jsonParse parse (contents st)) (\<lambda>currentJson.
        andThen (setAtPath host currentJson path v) (\<lambda>updated.
        andThen (jsonStringify stringify updated) (\<lambda>newContents.
          Returns (st\<lparr> contents := newContents, hasChanges := True \<rparr>)))))
       (\<lambda>error. Returns st)"

subsection \<open>\<^verbatim>\<open>setAtPath\<close> with references\<close>

text \<open>
  Arrays and objects are reference values, and whether \<^verbatim>\<open>setAtPath\<close> shares or copies is
  a statement about references. Here the containers live in a store: a cell holds the
  fields of one array or object, a field is a primitive or the address of a cell, and a
  new container takes the next free address. \<^verbatim>\<open>setAtPath\<close> allocates a cell in
  \<^verbatim>\<open>root.slice()\<close>, \<^verbatim>\<open>{ ...root }\<close>, \<^verbatim>\<open>[]\<close> and \<^verbatim>\<open>{}\<close>, reads \<^verbatim>\<open>cloned[head]\<close> from
  the cell it has allocated, and its only assignments are the two to \<^verbatim>\<open>cloned[head]\<close>,
  into that cell. The function returns the store it leaves and the value it returns.
\<close>

datatype hval = HUndefined | HNull | HBool bool | HNum real | HStr string | HRef nat

datatype cell = CArr "hval list" "(pkey \<times> hval) list" | CObj "(pkey \<times> hval) list"

type_synonym heap = "cell list"

text \<open>Own properties of a cell, and the two accesses \<^verbatim>\<open>c[k]\<close> and \<^verbatim>\<open>c[k] = v\<close>.\<close>

fun cellOwn :: "cell \<Rightarrow> pkey \<Rightarrow> hval option" where
  "cellOwn (CObj ps) k = map_of ps k"
| "cellOwn (CArr xs ps) (KIdx i) = (if i < length xs then Some (xs ! i) else None)"
| "cellOwn (CArr xs ps) (KName s) = (if s = ''length'' then None else map_of ps (KName s))"

definition cellGet :: "cell \<Rightarrow> pkey \<Rightarrow> hval" where
  "cellGet c k = (case cellOwn c k of Some v \<Rightarrow> v | None \<Rightarrow> HUndefined)"

fun cellSet :: "cell \<Rightarrow> pkey \<Rightarrow> hval \<Rightarrow> cell" where
  "cellSet (CObj ps) k v = CObj (put k v ps)"
| "cellSet (CArr xs ps) (KIdx i) v = CArr (setIndex HUndefined xs i v) ps"
| "cellSet (CArr xs ps) (KName s) v = CArr xs (put (KName s) v ps)"

definition cellRead :: "host \<Rightarrow> cell \<Rightarrow> pkey \<Rightarrow> hval outcome" where
  "cellRead host c k =
     (if cellOwn c k = None \<and> hostName host k then Host else Returns (cellGet c k))"

definition cellWrite :: "host \<Rightarrow> cell \<Rightarrow> pkey \<Rightarrow> hval \<Rightarrow> cell outcome" where
  "cellWrite host c k v =
     (if cellOwn c k = None \<and> hostName host k then Host else Returns (cellSet c k v))"

definition deref :: "heap \<Rightarrow> nat \<Rightarrow> cell option" where
  "deref h a = (if a < length h then Some (h ! a) else None)"

definition emptyCell :: "seg \<Rightarrow> cell" where
  "emptyCell head = (case head of SIdx n \<Rightarrow> CArr [] [] | SKey s \<Rightarrow> CObj [])"

definition cloneCell :: "heap \<Rightarrow> hval \<Rightarrow> seg \<Rightarrow> cell" where
  "cloneCell h r head =
     (case r of
        HRef a \<Rightarrow>
          (case deref h a of
             Some (CArr xs ps) \<Rightarrow> CArr xs []
           | Some (CObj ps) \<Rightarrow> CObj ps
           | None \<Rightarrow> emptyCell head)
      | other \<Rightarrow> emptyCell head)"

fun setAtPathH :: "host \<Rightarrow> heap \<Rightarrow> hval \<Rightarrow> seg list \<Rightarrow> hval \<Rightarrow> (heap \<times> hval) outcome" where
  "setAtPathH host h r [] v = Returns (h, v)"
| "setAtPathH host h r (head # rest) v =
     (let cloned = length h;
          h1 = h @ [cloneCell h r head]
      in if length rest = 0
         then (case cellWrite host (h1 ! cloned) (toPropertyKey head) v of
                 Returns c \<Rightarrow> Returns (h1[cloned := c], HRef cloned)
               | Throws e \<Rightarrow> Throws e
               | Host \<Rightarrow> Host)
         else (case cellRead host (h1 ! cloned) (toPropertyKey head) of
                 Returns nextLevel \<Rightarrow>
                   (case setAtPathH host h1 nextLevel rest v of
                      Returns (h2, sub) \<Rightarrow>
                        (case cellWrite host (h2 ! cloned) (toPropertyKey head) sub of
                           Returns c \<Rightarrow> Returns (h2[cloned := c], HRef cloned)
                         | Throws e \<Rightarrow> Throws e
                         | Host \<Rightarrow> Host)
                    | Throws e \<Rightarrow> Throws e
                    | Host \<Rightarrow> Host)
               | Throws e \<Rightarrow> Throws e
               | Host \<Rightarrow> Host))"

text \<open>
  Positions in a store. \<open>walkH h x q\<close> is the value found from \<open>x\<close> along the own
  properties \<open>q\<close> (\<open>HUndefined\<close> where there is none; a string has its characters).
\<close>

fun hGet :: "heap \<Rightarrow> hval \<Rightarrow> pkey \<Rightarrow> hval" where
  "hGet h (HRef a) k = (case deref h a of Some c \<Rightarrow> cellGet c k | None \<Rightarrow> HUndefined)"
| "hGet h (HStr t) (KIdx i) = (if i < length t then HStr [t ! i] else HUndefined)"
| "hGet h x k = HUndefined"

fun walkH :: "heap \<Rightarrow> hval \<Rightarrow> pkey list \<Rightarrow> hval" where
  "walkH h x [] = x"
| "walkH h x (k # ks) = walkH h (hGet h x k) ks"

text \<open>
  A store has no dangling reference when every field of every cell that is an address is
  the address of a cell. \<open>diverges q p\<close>: the positions \<open>q\<close> and \<open>p\<close> leave a common
  prefix by different keys, so neither is an ancestor of the other or the other itself.
\<close>

fun cellAll :: "(hval \<Rightarrow> bool) \<Rightarrow> cell \<Rightarrow> bool" where
  "cellAll P (CArr xs ps) = (list_all P xs \<and> list_all (\<lambda>p. P (snd p)) ps)"
| "cellAll P (CObj ps) = list_all (\<lambda>p. P (snd p)) ps"

fun refBelow :: "nat \<Rightarrow> hval \<Rightarrow> bool" where
  "refBelow n (HRef a) = (a < n)"
| "refBelow n x = True"

definition wfHeap :: "heap \<Rightarrow> bool" where
  "wfHeap h = list_all (cellAll (refBelow (length h))) h"

fun diverges :: "pkey list \<Rightarrow> pkey list \<Rightarrow> bool" where
  "diverges (a # as) (b # bs) = (a \<noteq> b \<or> diverges as bs)"
| "diverges as bs = False"

fun properPrefix :: "pkey list \<Rightarrow> pkey list \<Rightarrow> bool" where
  "properPrefix [] (b # bs) = True"
| "properPrefix (a # as) (b # bs) = (a = b \<and> properPrefix as bs)"
| "properPrefix as [] = False"

text \<open>
  \<open>copied h x k\<close>: \<open>x\<close> is a container whose property \<open>k\<close> its clone receives: any
  property of an object (\<^verbatim>\<open>{ ...root }\<close>), an element of an array (\<^verbatim>\<open>root.slice()\<close>).
  \<open>siblingOf h x q p\<close>: the position \<open>q\<close> leaves the path \<open>p\<close>, by a different key, at a
  container of the original that is reached from \<open>x\<close> through copied properties, and
  leaves it by a copied property: \<open>q\<close> lies in a part of the original next to the path.
\<close>

fun copied :: "heap \<Rightarrow> hval \<Rightarrow> pkey \<Rightarrow> bool" where
  "copied h (HRef a) k =
     (case deref h a of
        Some (CObj ps) \<Rightarrow> True
      | Some (CArr xs ps) \<Rightarrow> (case k of KIdx i \<Rightarrow> True | KName s \<Rightarrow> False)
      | None \<Rightarrow> False)"
| "copied h x k = False"

fun siblingOf :: "heap \<Rightarrow> hval \<Rightarrow> pkey list \<Rightarrow> pkey list \<Rightarrow> bool" where
  "siblingOf h x (a # as) (b # bs) =
     (copied h x a \<and> (if a = b then siblingOf h (hGet h x a) as bs else True))"
| "siblingOf h x as bs = False"

text \<open>
  A value of the store represents a tree value when it unfolds to it: primitives are
  themselves, and an address stands for the array or object whose fields, in order and
  under the same keys, represent the fields of the tree.
\<close>

inductive repr :: "heap \<Rightarrow> hval \<Rightarrow> jv \<Rightarrow> bool" where
  reprUndefined: "repr h HUndefined JUndefined"
| reprNull: "repr h HNull JNull"
| reprBool: "repr h (HBool b) (JBool b)"
| reprNum: "repr h (HNum n) (JNum n)"
| reprStr: "repr h (HStr s) (JStr s)"
| reprArr: "a < length h \<Longrightarrow> h ! a = CArr xs ps \<Longrightarrow> list_all2 (repr h) xs ys \<Longrightarrow>
     list_all2 (\<lambda>p q. fst p = fst q \<and> repr h (snd p) (snd q)) ps qs \<Longrightarrow>
     repr h (HRef a) (JArr ys qs)"
| reprObj: "a < length h \<Longrightarrow> h ! a = CObj ps \<Longrightarrow>
     list_all2 (\<lambda>p q. fst p = fst q \<and> repr h (snd p) (snd q)) ps qs \<Longrightarrow>
     repr h (HRef a) (JObj qs)"

fun cellRepr :: "(hval \<Rightarrow> jv \<Rightarrow> bool) \<Rightarrow> cell \<Rightarrow> jv \<Rightarrow> bool" where
  "cellRepr R (CArr xs ps) (JArr ys qs) =
     (list_all2 R xs ys \<and> list_all2 (\<lambda>p q. fst p = fst q \<and> R (snd p) (snd q)) ps qs)"
| "cellRepr R (CObj ps) (JObj qs) = list_all2 (\<lambda>p q. fst p = fst q \<and> R (snd p) (snd q)) ps qs"
| "cellRepr R c t = False"

subsection \<open>Sample data\<close>

text \<open>
  A host whose prototype objects supply the properties of \<^verbatim>\<open>Object.prototype\<close>.
\<close>

definition sampleHost :: host where
  "sampleHost s =
     (s \<in> set [''constructor'', ''hasOwnProperty'', ''isPrototypeOf'', ''propertyIsEnumerable'',
               ''toLocaleString'', ''toString'', ''valueOf'', ''__defineGetter__'',
               ''__defineSetter__'', ''__lookupGetter__'', ''__lookupSetter__''])"

text \<open>
  The document of the end-to-end scenario of the specification, as the editor holds it and
  as \<^verbatim>\<open>JSON.stringify(_, null, 2)\<close> prints it after the edit. \<open>sampleParse\<close> is
  \<^verbatim>\<open>JSON.parse\<close> cut down to five texts; every other text is rejected, among them
  \<^verbatim>\<open>{invalid\<close> and \<^verbatim>\<open>hello\<close>, which \<^verbatim>\<open>JSON.parse\<close> rejects too. \<open>samplePrint\<close> prints
  the scenario's result and maps everything else to \<^verbatim>\<open>null\<close>. They stand for the parser
  and the printer where a statement is instantiated.
\<close>

definition aliceDoc :: "real \<Rightarrow> jv" where
  "aliceDoc age =
     JObj [(KName ''user'', JObj [(KName ''name'', JStr ''Alice''), (KName ''age'', JNum age)])]"

definition aliceText :: string where
  "aliceText = ''{\"user\":{\"name\":\"Alice\",\"age\":30}}''"

definition alicePrinted :: string where
  "alicePrinted =
     ''{'' @ [CHR 0x0A] @
     ''  \"user\": {'' @ [CHR 0x0A] @
     ''    \"name\": \"Alice\",'' @ [CHR 0x0A] @
     ''    \"age\": 31'' @ [CHR 0x0A] @
     ''  }'' @ [CHR 0x0A] @
     ''}''"

definition sampleParse :: parser where
  "sampleParse t =
     (if t = aliceText then Some (aliceDoc 30)
      else if t = alicePrinted then Some (aliceDoc 31)
      else if t = ''31'' then Some (JNum 31)
      else if t = ''5'' then Some (JNum 5)
      else if t = ''\"xyz\"'' then Some (JStr ''xyz'')
      else None)"

definition samplePrint :: printer where
  "samplePrint v = (if v = aliceDoc 31 then alicePrinted else ''null'')"

definition brokenEditor :: editor where
  "brokenEditor =
     \<lparr> json = ''{invalid'', contents = ''{invalid'', hasChanges = False, graph = Raw [],
       editing = True, draft = ''5'', baseline = ''4'' \<rparr>"


text \<open>
  A store with the document \<^verbatim>\<open>{"a":{"b":1},"c":[7,8]}\<close> at address 2 and, apart from it,
  the object \<^verbatim>\<open>{"b":2}\<close> at address 3.
\<close>

definition sampleHeap :: heap where
  "sampleHeap =
     [CObj [(KName ''b'', HNum 1)],
      CArr [HNum 7, HNum 8] [],
      CObj [(KName ''a'', HRef 0), (KName ''c'', HRef 1)],
      CObj [(KName ''b'', HNum 2)]]"

section \<open>Properties\<close>

subsection \<open>Outcomes, property lists and containers\<close>

lemma andThen_simps [simp]:
  "andThen (Returns x) f = f x" "andThen (Throws e) f = Throws e" "andThen Host f = Host"
  by (simp_all add: andThen_def)

lemma tryCatch_simps [simp]:
  "tryCatch (Returns x) g = Returns x" "tryCatch (Throws e) g = g e" "tryCatch Host g = Host"
  by (simp_all add: tryCatch_def)


lemma map_of_ins: "map_of ps k = None \<Longrightarrow> map_of (ins k v ps) = (map_of ps)(k \<mapsto> v)"
  by (induction ps) (auto simp: fun_eq_iff)

lemma map_of_replace: "map_of ps k = Some old \<Longrightarrow> map_of (replace k v ps) = (map_of ps)(k \<mapsto> v)"
  by (induction ps) (auto simp: fun_eq_iff)

lemma map_of_put: "map_of (put k v ps) = (map_of ps)(k \<mapsto> v)"
  by (auto simp: put_def map_of_ins map_of_replace split: option.splits)

lemma map_of_spread: "map_of (spread a b) = map_of a ++ map_of (rev b)"
  unfolding spread_def
  by (induction b arbitrary: a) (auto simp: map_of_put fun_eq_iff map_add_def split: option.splits)

lemma setIndex_nth: "i < length (setIndex h xs i v) \<and> setIndex h xs i v ! i = v"
  by (auto simp: setIndex_def nth_append)

lemma hostName_index [simp]: "\<not> hostName host (KIdx i)"
  by (simp add: hostName_def)

lemma hostName_length [simp]: "hostName host (KName ''length'')"
  by (simp add: hostName_def)

text \<open>A number token from \<open>10^21\<close> on has a name that is left to the host.\<close>

lemma dec_bound: "n < 10 ^ length (dec n)"
proof (induction n rule: dec.induct)
  case (1 n)
  show ?case
  proof (cases "n < 10")
    case True
    then show ?thesis by (subst dec.simps) simp
  next
    case False
    with 1 have "n div 10 < 10 ^ length (dec (n div 10))" by simp
    then have "n < 10 * 10 ^ length (dec (n div 10))" by linarith
    with False show ?thesis by (subst dec.simps) simp
  qed
qed

lemma char_digits:
  "char_of (48::nat) = CHR ''0''" "char_of (49::nat) = CHR ''1''" "char_of (50::nat) = CHR ''2''"
  "char_of (51::nat) = CHR ''3''" "char_of (52::nat) = CHR ''4''" "char_of (53::nat) = CHR ''5''"
  "char_of (54::nat) = CHR ''6''" "char_of (55::nat) = CHR ''7''" "char_of (56::nat) = CHR ''8''"
  "char_of (57::nat) = CHR ''9''"
  by (simp_all add: char_of_def bit_Suc_0_iff)

lemma digit_char_of: "(d::nat) < 10 \<Longrightarrow> digit (char_of (48 + d))"
proof -
  assume "d < 10"
  then have "d \<in> {0, 1, 2, 3, 4, 5, 6, 7, 8, 9}" by auto
  then show ?thesis by (auto simp: digit_def char_digits)
qed

lemma dec_digits: "list_all digit (dec n)"
proof (induction n rule: dec.induct)
  case (1 n)
  show ?case
  proof (cases "n < 10")
    case True
    then show ?thesis by (subst dec.simps) (simp add: digit_char_of)
  next
    case False
    with 1 have "list_all digit (dec (n div 10))" by simp
    with False show ?thesis by (subst dec.simps) (simp add: digit_char_of)
  qed
qed

lemma large_number_token:
  assumes "10 ^ 21 \<le> n"
  shows "hostName host (toPropertyKey (SIdx n))"
proof -
  have "21 < length (dec n)"
  proof (rule ccontr)
    assume "\<not> 21 < length (dec n)"
    then have "(10::nat) ^ length (dec n) \<le> 10 ^ 21" by (intro power_increasing) simp_all
    with dec_bound [of n] assms show False by simp
  qed
  moreover from assms have "\<not> n < 4294967295" by simp
  ultimately show ?thesis by (simp add: hostName_def dec_digits del: dec.simps)
qed

lemma isContainer_clone: "isContainer (clone r h)"
  by (cases r; cases h) (simp_all add: emptyFor_def)

lemma container_defined: "isContainer c \<Longrightarrow> c \<noteq> JNull \<and> c \<noteq> JUndefined"
  by (cases c) simp_all


lemma getProp_data: "\<not> hostName host k \<Longrightarrow> getProp host x k = Returns (ownGet x k)"
  by (simp add: getProp_def)

lemma getProp_own: "own x k = Some v \<Longrightarrow> getProp host x k = Returns v"
  by (simp add: getProp_def ownGet_def)

lemma readLoop_undefined: "readLoop host JUndefined p = Returns JUndefined"
  by (induction p) (simp_all add: optGet_def)

lemma optGet_own: "own r k = Some x \<Longrightarrow> optGet host r k = Returns x"
  by (cases r) (simp_all add: optGet_def getProp_own)

lemma withProp_container:
  "isContainer c \<Longrightarrow> \<not> (own c k = None \<and> hostName host k) \<Longrightarrow>
   \<exists>c'. withProp c k v = Some c' \<and> isContainer c' \<and> own c' k = Some v"
  by (cases c; cases k) (auto simp: map_of_put setIndex_nth)

lemma setProp_container:
  "isContainer c \<Longrightarrow> \<not> (own c k = None \<and> hostName host k) \<Longrightarrow>
   \<exists>c'. setProp host c k v = Returns c' \<and> withProp c k v = Some c' \<and> isContainer c' \<and> own c' k = Some v"
  using withProp_container [of c k host v] container_defined [of c]
  by (auto simp: setProp_def)


lemma setProp_not_Throws: "isContainer c \<Longrightarrow> setProp host c k v \<noteq> Throws e"
  by (cases c; cases k) (simp_all add: setProp_def)

lemma setAtPath_Cons:
  "setAtPath host r (h # rest) v =
     (if own (clone r h) (toPropertyKey h) = None \<and> hostName host (toPropertyKey h) then Host
      else andThen (setAtPath host (ownGet (clone r h) (toPropertyKey h)) rest v)
             (\<lambda>sub. setProp host (clone r h) (toPropertyKey h) sub))"
proof (cases rest)
  case Nil
  have "clone r h \<noteq> JNull \<and> clone r h \<noteq> JUndefined"
    using isContainer_clone by (rule container_defined)
  with Nil show ?thesis by (simp add: Let_def setProp_def)
next
  case (Cons t ts)
  then show ?thesis
    by (simp add: Let_def getProp_def andThen_def split: outcome.splits)
qed


lemma dataPath_Cons:
  "dataPath host (s # rest) \<longleftrightarrow> \<not> hostName host (toPropertyKey s) \<and> dataPath host rest"
  by (simp add: dataPath_def)


lemma setAtPath_not_Throws: "setAtPath host d p v \<noteq> Throws e"
proof (induction p arbitrary: d)
  case Nil
  show ?case by simp
next
  case (Cons h rest)
  show ?case
    using Cons.IH [of "ownGet (clone d h) (toPropertyKey h)"]
      setProp_not_Throws [OF isContainer_clone, of host d h "toPropertyKey h" _ e]
    by (simp only: setAtPath_Cons) (auto simp: andThen_def split: outcome.splits)
qed

subsection \<open>Reading back what was set\<close>

lemma key_a: "toPropertyKey (SKey ''a'') = KName ''a''"
  by (simp add: arrayIndex_def digit_def)

lemma key_c: "toPropertyKey (SKey ''c'') = KName ''c''"
  by (simp add: arrayIndex_def digit_def)

lemma key_0: "toPropertyKey (SIdx 0) = KIdx 0"
  by simp

lemma sample_names:
  "\<not> hostName sampleHost (KName ''a'')" "\<not> hostName sampleHost (KName ''b'')"
  "\<not> hostName sampleHost (KName ''c'')" "\<not> hostName sampleHost (KName ''x'')"
  "\<not> hostName sampleHost (KName ''user'')" "\<not> hostName sampleHost (KName ''age'')"
  "\<not> hostName sampleHost (KName ''name'')" "\<not> hostName sampleHost (KName ''email'')"
  "\<not> hostName sampleHost (KName ''host'')"
  by (simp_all add: hostName_def sampleHost_def)



subsection \<open>Healing\<close>

lemma clone_scalar: "\<not> isContainer r \<Longrightarrow> clone r h = emptyFor h"
  by (cases r) simp_all

lemma own_emptyFor: "own (emptyFor h) k = None"
  by (cases h; cases k) (simp_all add: emptyFor_def)

lemma healed_Cons: "healed (s # rest) v = healed [s] (healed rest v)"
  by (cases s) (simp_all split: pkey.splits)

lemma setProp_emptyFor:
  "\<not> hostName host (toPropertyKey s) \<Longrightarrow>
   setProp host (emptyFor s) (toPropertyKey s) x = Returns (healed [s] x)"
proof (cases s)
  case (SKey name)
  assume "\<not> hostName host (toPropertyKey s)"
  with SKey show ?thesis
    by (simp add: emptyFor_def setProp_def put_def del: toPropertyKey.simps)
next
  case (SIdx n)
  assume "\<not> hostName host (toPropertyKey s)"
  with SIdx show ?thesis
    by (cases "toPropertyKey (SIdx n)")
      (simp_all add: emptyFor_def setProp_def put_def setIndex_def del: toPropertyKey.simps)
qed

lemma setAtPath_healed:
  "\<not> isContainer r \<Longrightarrow> dataPath host p \<Longrightarrow> setAtPath host r p v = Returns (healed p v)"
proof (induction p arbitrary: r)
  case Nil
  show ?case by simp
next
  case (Cons s rest)
  from Cons.prems have k: "\<not> hostName host (toPropertyKey s)" and d: "dataPath host rest"
    by (simp_all add: dataPath_Cons)
  have c: "clone r s = emptyFor s" using Cons.prems(1) by (rule clone_scalar)
  have "setAtPath host JUndefined rest v = Returns (healed rest v)"
    using _ d by (rule Cons.IH) simp
  with k show ?case
    by (simp only: setAtPath_Cons c own_emptyFor ownGet_def option.case)
      (simp add: setProp_emptyFor healed_Cons [of s rest] del: healed.simps)
qed

lemma ownGet_clone:
  "ownGet (clone d h) k = JUndefined
   \<or> (d \<noteq> JNull \<and> d \<noteq> JUndefined \<and> ownGet (clone d h) k = ownGet d k)"
  by (cases d; cases k; cases h) (simp_all add: emptyFor_def ownGet_def)

lemma setAtPath_heals_below:
  "dataPath host (pre @ s # rest) \<Longrightarrow> readLoop host r pre = Returns x \<Longrightarrow> \<not> isContainer x \<Longrightarrow>
   \<exists>d'. setAtPath host r (pre @ s # rest) v = Returns d'
        \<and> readLoop host d' pre = Returns (healed (s # rest) v)"
proof (induction pre arbitrary: r x)
  case Nil
  then show ?case by (simp add: setAtPath_healed del: setAtPath.simps healed.simps)
next
  case (Cons h pre')
  let ?c = "clone r h" and ?k = "toPropertyKey h"
  let ?nl = "ownGet ?c ?k"
  from Cons.prems(1) have k: "\<not> hostName host ?k" and d: "dataPath host (pre' @ s # rest)"
    by (simp_all add: dataPath_Cons)
  have "\<exists>x'. readLoop host ?nl pre' = Returns x' \<and> \<not> isContainer x'"
  proof (cases "?nl = JUndefined")
    case True
    then show ?thesis by (simp add: readLoop_undefined)
  next
    case False
    with ownGet_clone [of r h ?k] have r: "r \<noteq> JNull" "r \<noteq> JUndefined" and e: "?nl = ownGet r ?k"
      by simp_all
    from r k have "optGet host r ?k = Returns (ownGet r ?k)"
      by (simp add: optGet_def getProp_data)
    with Cons.prems(2) e have "readLoop host ?nl pre' = Returns x" by simp
    with Cons.prems(3) show ?thesis by blast
  qed
  then obtain x' where "readLoop host ?nl pre' = Returns x'" and "\<not> isContainer x'" by blast
  from Cons.IH [OF d this] obtain sub where
    sub: "setAtPath host ?nl (pre' @ s # rest) v = Returns sub"
    and rd: "readLoop host sub pre' = Returns (healed (s # rest) v)"
    by blast
  from setProp_container [OF isContainer_clone, of r h ?k host sub] k
  obtain d' where sp: "setProp host ?c ?k sub = Returns d'" and o: "own d' ?k = Some sub"
    by auto
  from k sub sp have "setAtPath host r ((h # pre') @ s # rest) v = Returns d'"
    by (simp only: append_Cons setAtPath_Cons) simp
  moreover from o rd have "readLoop host d' (h # pre') = Returns (healed (s # rest) v)"
    by (simp add: optGet_own del: healed.simps)
  ultimately show ?case by blast
qed

text \<open>
  Claim C6. Where \<^verbatim>\<open>setAtPath\<close> meets a value that is absent (\<^verbatim>\<open>undefined\<close>),
  \<^verbatim>\<open>null\<close> or not a container, it builds from there the structure of the rest of the
  path: for each segment a fresh container chosen by the type of the segment, an array
  for a number and an object for a string, holding at that segment what the rest of the
  path gives (\<open>healed\<close>). This holds at the root, and at every depth: where the walk of
  the original along a prefix of the path ends in a value that is not a container, the
  result holds at that prefix the structure built for the rest of the path. When the
  property read from an object or the element read from an array is absent or not a
  container, the copy of that object or array receives, at the segment, the structure
  built for the rest of the path, and keeps its other entries. So
  \<^verbatim>\<open>setAtPath(null, ["a", 0], 5)\<close> is the object whose key \<^verbatim>\<open>a\<close> holds the array whose
  element 0 is 5, and \<^verbatim>\<open>setAtPath({x: 1}, ["a", 0], 5)\<close> is \<^verbatim>\<open>{x: 1, a: [5]}\<close>. The
  segments are names of data.
\<close>

theorem healing:
  "(\<not> isContainer r \<and> dataPath host (s # rest) \<longrightarrow>
      setAtPath host r (s # rest) v = Returns (healed (s # rest) v))
   \<and> (dataPath host (pre @ s # rest) \<and> readLoop host d pre = Returns x \<and> \<not> isContainer x \<longrightarrow>
        (\<exists>d'. setAtPath host d (pre @ s # rest) v = Returns d'
              \<and> readLoop host d' pre = Returns (healed (s # rest) v)))
   \<and> (dataPath host (s # t # rest) \<and> \<not> isContainer (ownGet (JObj ps) (toPropertyKey s)) \<longrightarrow>
        setAtPath host (JObj ps) (s # t # rest) v =
          Returns (JObj (put (toPropertyKey s) (healed (t # rest) v) ps)))
   \<and> (toPropertyKey s = KIdx i \<and> dataPath host (t # rest) \<and> \<not> isContainer (ownGet (JArr xs qs) (KIdx i)) \<longrightarrow>
        setAtPath host (JArr xs qs) (s # t # rest) v =
          Returns (JArr (setIndex JUndefined xs i (healed (t # rest) v)) []))
   \<and> isArray (healed (SIdx n # rest) v)
   \<and> isMapping (healed (SKey name # rest) v)
   \<and> (\<not> host ''a'' \<longrightarrow>
        setAtPath host JNull [SKey ''a'', SIdx 0] (JNum 5) = Returns (JObj [(KName ''a'', JArr [JNum 5] [])]))
   \<and> (\<not> host ''a'' \<longrightarrow>
        setAtPath host (JObj [(KName ''x'', JNum 1)]) [SKey ''a'', SIdx 0] (JNum 5) =
          Returns (JObj [(KName ''x'', JNum 1), (KName ''a'', JArr [JNum 5] [])]))"
proof -
  have root: "\<not> isContainer r \<and> dataPath host (s # rest) \<longrightarrow>
      setAtPath host r (s # rest) v = Returns (healed (s # rest) v)"
    using setAtPath_healed [of r host "s # rest" v] by blast
  have deep: "dataPath host (pre @ s # rest) \<and> readLoop host d pre = Returns x \<and> \<not> isContainer x \<longrightarrow>
        (\<exists>d'. setAtPath host d (pre @ s # rest) v = Returns d'
              \<and> readLoop host d' pre = Returns (healed (s # rest) v))"
    using setAtPath_heals_below [of host pre s rest d x v] by blast
  have obj: "dataPath host (s # t # rest) \<and> \<not> isContainer (ownGet (JObj ps) (toPropertyKey s)) \<longrightarrow>
        setAtPath host (JObj ps) (s # t # rest) v =
          Returns (JObj (put (toPropertyKey s) (healed (t # rest) v) ps))"
  proof
    assume a: "dataPath host (s # t # rest) \<and> \<not> isContainer (ownGet (JObj ps) (toPropertyKey s))"
    then have k: "\<not> hostName host (toPropertyKey s)" and d: "dataPath host (t # rest)"
      by (simp_all add: dataPath_Cons)
    from a d have "setAtPath host (ownGet (JObj ps) (toPropertyKey s)) (t # rest) v
        = Returns (healed (t # rest) v)"
      using setAtPath_healed [of "ownGet (JObj ps) (toPropertyKey s)" host "t # rest" v] by blast
    with k show "setAtPath host (JObj ps) (s # t # rest) v =
          Returns (JObj (put (toPropertyKey s) (healed (t # rest) v) ps))"
      by (simp only: setAtPath_Cons [of host "JObj ps" s] clone.simps) (simp add: setProp_def)
  qed
  have arr: "toPropertyKey s = KIdx i \<and> dataPath host (t # rest) \<and> \<not> isContainer (ownGet (JArr xs qs) (KIdx i)) \<longrightarrow>
        setAtPath host (JArr xs qs) (s # t # rest) v =
          Returns (JArr (setIndex JUndefined xs i (healed (t # rest) v)) [])"
  proof
    assume a: "toPropertyKey s = KIdx i \<and> dataPath host (t # rest) \<and> \<not> isContainer (ownGet (JArr xs qs) (KIdx i))"
    have same: "ownGet (JArr xs []) (KIdx i) = ownGet (JArr xs qs) (KIdx i)"
      by (simp add: ownGet_def)
    from a have "setAtPath host (ownGet (JArr xs []) (KIdx i)) (t # rest) v
        = Returns (healed (t # rest) v)"
      using setAtPath_healed [of "ownGet (JArr xs qs) (KIdx i)" host "t # rest" v]
      by (simp only: same) blast
    with a show "setAtPath host (JArr xs qs) (s # t # rest) v =
          Returns (JArr (setIndex JUndefined xs i (healed (t # rest) v)) [])"
      by (simp only: setAtPath_Cons [of host "JArr xs qs" s] clone.simps) (simp add: setProp_def)
  qed
  have shape: "isArray (healed (SIdx n # rest) v)" "isMapping (healed (SKey name # rest) v)"
    by (simp_all split: pkey.splits)
  have ex1: "\<not> host ''a'' \<longrightarrow>
        setAtPath host JNull [SKey ''a'', SIdx 0] (JNum 5) = Returns (JObj [(KName ''a'', JArr [JNum 5] [])])"
    by (simp add: arrayIndex_def digit_def emptyFor_def getProp_def setProp_def ownGet_def
        hostName_def put_def setIndex_def)
  have ex2: "\<not> host ''a'' \<longrightarrow>
        setAtPath host (JObj [(KName ''x'', JNum 1)]) [SKey ''a'', SIdx 0] (JNum 5) =
          Returns (JObj [(KName ''x'', JNum 1), (KName ''a'', JArr [JNum 5] [])])"
    by (simp add: arrayIndex_def digit_def emptyFor_def getProp_def setProp_def ownGet_def
        hostName_def put_def setIndex_def)
  from root deep obj arr shape ex1 ex2 show ?thesis by blast
qed

theorem healing_witness:
  "\<not> isContainer (JStr ''text'') \<and> dataPath sampleHost [SIdx 1, SKey ''a'']
   \<and> setAtPath sampleHost (JStr ''text'') [SIdx 1, SKey ''a''] JNull
       = Returns (JArr [JUndefined, JObj [(KName ''a'', JNull)]] [])
   \<and> dataPath sampleHost [SKey ''b'', SKey ''a'', SIdx 1]
   \<and> \<not> isContainer (ownGet (JObj [(KName ''b'', JNum 7), (KName ''c'', JNum 8)]) (toPropertyKey (SKey ''b'')))
   \<and> setAtPath sampleHost (JObj [(KName ''b'', JNum 7), (KName ''c'', JNum 8)])
        [SKey ''b'', SKey ''a'', SIdx 1] JNull
       = Returns (JObj [(KName ''b'', JObj [(KName ''a'', JArr [JUndefined, JNull] [])]),
                        (KName ''c'', JNum 8)])
   \<and> toPropertyKey (SIdx 2) = KIdx 2 \<and> dataPath sampleHost [SKey ''a'']
   \<and> \<not> isContainer (ownGet (JArr [JNum 1, JNum 2] []) (KIdx 2))
   \<and> setAtPath sampleHost (JArr [JNum 1, JNum 2] []) [SIdx 2, SKey ''a''] JNull
       = Returns (JArr [JNum 1, JNum 2, JObj [(KName ''a'', JNull)]] [])
   \<and> \<not> sampleHost ''a''
   \<and> setAtPath sampleHost JNull [SKey ''a'', SIdx 0] (JNum 5) = Returns (JObj [(KName ''a'', JArr [JNum 5] [])])
   \<and> setAtPath sampleHost (JObj [(KName ''x'', JNum 1)]) [SKey ''a'', SIdx 0] (JNum 5) =
       Returns (JObj [(KName ''x'', JNum 1), (KName ''a'', JArr [JNum 5] [])])
   \<and> dataPath sampleHost ([SKey ''a'', SKey ''b''] @ SKey ''c'' # [])
   \<and> readLoop sampleHost (JObj [(KName ''a'', JObj [(KName ''b'', JNull)])]) [SKey ''a'', SKey ''b'']
       = Returns JNull
   \<and> \<not> isContainer JNull
   \<and> setAtPath sampleHost (JObj [(KName ''a'', JObj [(KName ''b'', JNull)])])
        ([SKey ''a'', SKey ''b''] @ SKey ''c'' # []) (JNum 5)
       = Returns (JObj [(KName ''a'', JObj [(KName ''b'', JObj [(KName ''c'', JNum 5)])])])
   \<and> readLoop sampleHost (JObj [(KName ''a'', JObj [(KName ''b'', JObj [(KName ''c'', JNum 5)])])])
        [SKey ''a'', SKey ''b''] = Returns (healed [SKey ''c''] (JNum 5))"
proof -
  have d1: "dataPath sampleHost [SIdx 1, SKey ''a'']"
    and d2: "dataPath sampleHost [SKey ''b'', SKey ''a'', SIdx 1]"
    and d3: "dataPath sampleHost [SKey ''a'']"
    by (simp_all add: dataPath_def arrayIndex_def digit_def sample_names)
  have n2: "\<not> isContainer (ownGet (JObj [(KName ''b'', JNum 7), (KName ''c'', JNum 8)]) (toPropertyKey (SKey ''b'')))"
    by (simp add: ownGet_def arrayIndex_def digit_def)
  have n3: "\<not> isContainer (ownGet (JArr [JNum 1, JNum 2] []) (KIdx 2))"
    by (simp add: ownGet_def)
  have k2: "toPropertyKey (SIdx 2) = KIdx 2" by simp
  have a: "\<not> sampleHost ''a''" by (simp add: sampleHost_def)
  have h1: "healed [SIdx 1, SKey ''a''] JNull = JArr [JUndefined, JObj [(KName ''a'', JNull)]] []"
    by (simp add: arrayIndex_def digit_def)
  have h2: "JObj (put (toPropertyKey (SKey ''b'')) (healed [SKey ''a'', SIdx 1] JNull)
                [(KName ''b'', JNum 7), (KName ''c'', JNum 8)])
       = JObj [(KName ''b'', JObj [(KName ''a'', JArr [JUndefined, JNull] [])]), (KName ''c'', JNum 8)]"
    by (simp add: arrayIndex_def digit_def put_def)
  have h3: "JArr (setIndex JUndefined [JNum 1, JNum 2] 2 (healed [SKey ''a''] JNull)) []
       = JArr [JNum 1, JNum 2, JObj [(KName ''a'', JNull)]] []"
    by (simp add: arrayIndex_def digit_def setIndex_def)
  have r1: "setAtPath sampleHost (JStr ''text'') [SIdx 1, SKey ''a''] JNull
       = Returns (JArr [JUndefined, JObj [(KName ''a'', JNull)]] [])"
    using healing [of "JStr ''text''" sampleHost "SIdx 1" "[SKey ''a'']" JNull] d1
    by (simp only: h1) simp
  have r2: "setAtPath sampleHost (JObj [(KName ''b'', JNum 7), (KName ''c'', JNum 8)])
        [SKey ''b'', SKey ''a'', SIdx 1] JNull
       = Returns (JObj [(KName ''b'', JObj [(KName ''a'', JArr [JUndefined, JNull] [])]),
                        (KName ''c'', JNum 8)])"
    using healing [of JNull sampleHost "SKey ''b''" "[SIdx 1]" JNull "[]" JNull JNull "SKey ''a''"
        "[(KName ''b'', JNum 7), (KName ''c'', JNum 8)]"] d2 n2
    by (simp only: h2) simp
  have r3: "setAtPath sampleHost (JArr [JNum 1, JNum 2] []) [SIdx 2, SKey ''a''] JNull
       = Returns (JArr [JNum 1, JNum 2, JObj [(KName ''a'', JNull)]] [])"
    using healing [of JNull sampleHost "SIdx 2" "[]" JNull "[]" JNull JNull "SKey ''a''" "[]" 2
        "[JNum 1, JNum 2]" "[]"]
      k2 d3 n3
    by (simp only: h3) simp
  have r4: "setAtPath sampleHost JNull [SKey ''a'', SIdx 0] (JNum 5) = Returns (JObj [(KName ''a'', JArr [JNum 5] [])])"
    using healing [of JNull sampleHost "SKey ''a''" "[SIdx 0]" "JNum 5"] a by blast
  have r5: "setAtPath sampleHost (JObj [(KName ''x'', JNum 1)]) [SKey ''a'', SIdx 0] (JNum 5) =
       Returns (JObj [(KName ''x'', JNum 1), (KName ''a'', JArr [JNum 5] [])])"
    using healing [of JNull sampleHost "SKey ''a''" "[SIdx 0]" "JNum 5"] a by blast
  have d6: "dataPath sampleHost ([SKey ''a'', SKey ''b''] @ SKey ''c'' # [])"
    by (simp add: dataPath_def arrayIndex_def digit_def sample_names)
  have w6: "readLoop sampleHost (JObj [(KName ''a'', JObj [(KName ''b'', JNull)])]) [SKey ''a'', SKey ''b'']
       = Returns JNull"
    by (simp add: arrayIndex_def digit_def optGet_def getProp_def ownGet_def)
  have s6: "setAtPath sampleHost (JObj [(KName ''a'', JObj [(KName ''b'', JNull)])])
        ([SKey ''a'', SKey ''b''] @ SKey ''c'' # []) (JNum 5)
       = Returns (JObj [(KName ''a'', JObj [(KName ''b'', JObj [(KName ''c'', JNum 5)])])])"
    by (simp add: arrayIndex_def digit_def emptyFor_def getProp_def setProp_def ownGet_def
        sample_names put_def)
  have nc: "\<not> isContainer JNull" by simp
  from healing [of JNull sampleHost "SKey ''c''" "[]" "JNum 5" "[SKey ''a'', SKey ''b'']"
      "JObj [(KName ''a'', JObj [(KName ''b'', JNull)])]" JNull]
  have "dataPath sampleHost ([SKey ''a'', SKey ''b''] @ SKey ''c'' # [])
      \<and> readLoop sampleHost (JObj [(KName ''a'', JObj [(KName ''b'', JNull)])]) [SKey ''a'', SKey ''b'']
          = Returns JNull
      \<and> \<not> isContainer JNull \<longrightarrow>
      (\<exists>d'. setAtPath sampleHost (JObj [(KName ''a'', JObj [(KName ''b'', JNull)])])
              ([SKey ''a'', SKey ''b''] @ SKey ''c'' # []) (JNum 5) = Returns d'
            \<and> readLoop sampleHost d' [SKey ''a'', SKey ''b''] = Returns (healed [SKey ''c''] (JNum 5)))"
    by blast
  with d6 w6 nc obtain d' where "setAtPath sampleHost (JObj [(KName ''a'', JObj [(KName ''b'', JNull)])])
        ([SKey ''a'', SKey ''b''] @ SKey ''c'' # []) (JNum 5) = Returns d'"
    and "readLoop sampleHost d' [SKey ''a'', SKey ''b''] = Returns (healed [SKey ''c''] (JNum 5))"
    by blast
  with s6 have r6: "readLoop sampleHost (JObj [(KName ''a'', JObj [(KName ''b'', JObj [(KName ''c'', JNum 5)])])])
        [SKey ''a'', SKey ''b''] = Returns (healed [SKey ''c''] (JNum 5))"
    by (simp del: readLoop.simps healed.simps)
  have nt: "\<not> isContainer (JStr ''text'')" by simp
  from nt d1 r1 d2 n2 r2 k2 d3 n3 r3 a r4 r5 d6 w6 nc s6 r6 show ?thesis by blast
qed

subsection \<open>The merge policy\<close>

lemma map_of_rev_distinct: "distinct (map fst b) \<Longrightarrow> map_of (rev b) = map_of b"
  by (rule map_of_inject_set [THEN iffD2]) (simp_all add: rev_map [symmetric])

lemma merged_objects: "merged (JObj a) (JObj b) = JObj (spread a b)"
  by (simp add: merged_def)

lemma merged_other: "\<not> (isMapping old \<and> isMapping new) \<Longrightarrow> merged old new = new"
  by (cases old; cases new) (simp_all add: merged_def)

text \<open>
  Claim C4. The value that \<^verbatim>\<open>commitEdit\<close> commits is the shallow merge of the old and
  the proposed value exactly when both are mappings (objects that are neither arrays nor
  \<^verbatim>\<open>null\<close>): the merge holds, under each key, the proposed value if the proposed object
  has the key and the old value otherwise, nested values taken as they are. In every
  other case it is the proposed value unchanged. The objects \<^verbatim>\<open>{"a":1,"b":2}\<close> and
  \<^verbatim>\<open>{"b":3,"c":4}\<close> merge to \<^verbatim>\<open>{"a":1,"b":3,"c":4}\<close>. (An object has each key once: the
  look-up equation is stated for property lists with distinct keys.)
\<close>

theorem merge_policy:
  "merged (JObj a) (JObj b) = JObj (spread a b)
   \<and> (distinct (map fst b) \<longrightarrow>
        (\<forall>k. map_of (spread a b) k = (case map_of b k of Some v \<Rightarrow> Some v | None \<Rightarrow> map_of a k)))
   \<and> (\<not> (isMapping old \<and> isMapping new) \<longrightarrow> merged old new = new)
   \<and> merged (JObj [(KName ''a'', JNum 1), (KName ''b'', JNum 2)])
             (JObj [(KName ''b'', JNum 3), (KName ''c'', JNum 4)])
        = JObj [(KName ''a'', JNum 1), (KName ''b'', JNum 3), (KName ''c'', JNum 4)]"
proof -
  have look: "distinct (map fst b) \<longrightarrow>
        (\<forall>k. map_of (spread a b) k = (case map_of b k of Some v \<Rightarrow> Some v | None \<Rightarrow> map_of a k))"
    by (simp add: map_of_spread map_of_rev_distinct map_add_def)
  have ex: "merged (JObj [(KName ''a'', JNum 1), (KName ''b'', JNum 2)])
             (JObj [(KName ''b'', JNum 3), (KName ''c'', JNum 4)])
        = JObj [(KName ''a'', JNum 1), (KName ''b'', JNum 3), (KName ''c'', JNum 4)]"
    by (simp add: merged_def spread_def put_def)
  from merged_objects [of a b] look merged_other [of old new] ex show ?thesis by blast
qed

theorem merge_policy_witness:
  "distinct (map fst [(KName ''b'', JNum 3)])
   \<and> map_of (spread [(KName ''a'', JNum 1), (KName ''b'', JNum 2)] [(KName ''b'', JNum 3)]) (KName ''a'') = Some (JNum 1)
   \<and> map_of (spread [(KName ''a'', JNum 1), (KName ''b'', JNum 2)] [(KName ''b'', JNum 3)]) (KName ''b'') = Some (JNum 3)
   \<and> \<not> (isMapping (JArr [JNum 1, JNum 2, JNum 3] []) \<and> isMapping (JObj [(KName ''x'', JNum 1)]))
   \<and> merged (JArr [JNum 1, JNum 2, JNum 3] []) (JObj [(KName ''x'', JNum 1)]) = JObj [(KName ''x'', JNum 1)]"
  using merge_policy [of "[(KName ''a'', JNum 1), (KName ''b'', JNum 2)]" "[(KName ''b'', JNum 3)]"
      "JArr [JNum 1, JNum 2, JNum 3] []" "JObj [(KName ''x'', JNum 1)]"]
  by simp

subsection \<open>Coercion of the edited text\<close>

lemma dropWhile_all: "(\<forall>x\<in>set (dropWhile P s). P x) \<longleftrightarrow> (\<forall>x\<in>set s. P x)"
  by (induction s) auto

lemma trim_empty: "trim content = [] \<longleftrightarrow> list_all whitespace content"
  by (simp add: trim_def dropWhile_eq_Nil_conv dropWhile_all list_all_iff)

lemma coerceInputValue_returns: "\<exists>x. coerceInputValue parse content = Returns x"
  by (simp add: coerceInputValue_def Let_def jsonParse_def split: option.splits)

text \<open>
  Claim C7. \<^verbatim>\<open>coerceInputValue\<close>: a text that is empty or blank (nothing is left after
  trimming, that is, every character is white space) becomes the empty string; otherwise,
  if the trimmed text parses as JSON, the parsed value (\<^verbatim>\<open>5\<close> becomes the number 5);
  otherwise the text as typed becomes a string (\<^verbatim>\<open>hello\<close> becomes \<^verbatim>\<open>"hello"\<close>). No case
  is an error: in each the function returns.
\<close>

theorem coercion:
  "(trim content = [] \<longleftrightarrow> list_all whitespace content)
   \<and> (list_all whitespace content \<longrightarrow> coerceInputValue parse content = Returns (JStr []))
   \<and> (\<not> list_all whitespace content \<and> parse (trim content) = Some v \<longrightarrow>
        coerceInputValue parse content = Returns v)
   \<and> (\<not> list_all whitespace content \<and> parse (trim content) = None \<longrightarrow>
        coerceInputValue parse content = Returns (JStr content))
   \<and> (parse ''5'' = Some (JNum 5) \<longrightarrow> coerceInputValue parse ''5'' = Returns (JNum 5))
   \<and> (parse ''hello'' = None \<longrightarrow> coerceInputValue parse ''hello'' = Returns (JStr ''hello''))
   \<and> coerceInputValue parse '''' = Returns (JStr '''')"
proof -
  have five: "trim ''5'' = ''5''" and hello: "trim ''hello'' = ''hello''" and e: "trim '''' = ''''"
    by (simp_all add: trim_def whitespace_def)
  show ?thesis
    using trim_empty [of content]
    by (simp add: coerceInputValue_def jsonParse_def five hello e)
qed

theorem coercion_witness:
  "list_all whitespace ''  '' \<and> coerceInputValue sampleParse ''  '' = Returns (JStr [])
   \<and> \<not> list_all whitespace '' 5 '' \<and> sampleParse (trim '' 5 '') = Some (JNum 5)
   \<and> coerceInputValue sampleParse '' 5 '' = Returns (JNum 5)
   \<and> \<not> list_all whitespace '' hello'' \<and> sampleParse (trim '' hello'') = None
   \<and> coerceInputValue sampleParse '' hello'' = Returns (JStr '' hello'')
   \<and> sampleParse ''5'' = Some (JNum 5) \<and> sampleParse ''hello'' = None"
proof -
  have t5: "trim '' 5 '' = ''5''" and th: "trim '' hello'' = ''hello''"
    by (simp_all add: trim_def whitespace_def)
  have p5: "sampleParse ''5'' = Some (JNum 5)" and ph: "sampleParse ''hello'' = None"
    by (simp_all add: sampleParse_def aliceText_def alicePrinted_def)
  have w1: "list_all whitespace ''  ''" and w2: "\<not> list_all whitespace '' 5 ''"
    and w3: "\<not> list_all whitespace '' hello''"
    by (simp_all add: whitespace_def)
  show ?thesis
    using coercion [of "''  ''" sampleParse] coercion [of "'' 5 ''" sampleParse "JNum 5"]
      coercion [of "'' hello''" sampleParse]
    by (simp add: t5 th p5 ph whitespace_def)
qed

subsection \<open>The walk of \<^verbatim>\<open>readValueAtPath\<close>\<close>

lemma optGet_noProperty: "noProperty host r k \<Longrightarrow> optGet host r k = Returns JUndefined"
  by (auto simp: noProperty_def optGet_def getProp_def ownGet_def)

lemma optGet_host:
  "r \<noteq> JNull \<Longrightarrow> r \<noteq> JUndefined \<Longrightarrow> own r k = None \<Longrightarrow> hostName host k \<Longrightarrow> optGet host r k = Host"
  by (simp add: optGet_def getProp_def)

lemma readLoop_not_Throws: "readLoop host r p \<noteq> Throws e"
proof (induction p arbitrary: r)
  case Nil
  show ?case by simp
next
  case (Cons s rest)
  then show ?case
    by (auto simp: optGet_def getProp_def split: outcome.splits)
qed


text \<open>
  Claim C8 says that the walk of \<^verbatim>\<open>readValueAtPath\<close> gives up with \<^verbatim>\<open>undefined\<close> on
  every value that is not a container. A string is not a container, yet
  \<^verbatim>\<open>current?.[path[i]]\<close> indexes it: reading index 0 of \<^verbatim>\<open>"xyz"\<close> yields \<^verbatim>\<open>"x"\<close>.
\<close>

theorem get_walk_counterexample:
  "\<not> isContainer (JStr ''xyz'')
   \<and> readLoop sampleHost (JStr ''xyz'') [SIdx 0] = Returns (JStr ''x'')
   \<and> readValueAtPath sampleHost sampleParse ''\"xyz\"'' (Some [SIdx 0]) = Returns (JStr ''x'')
   \<and> JStr ''x'' \<noteq> JUndefined"
  by (simp add: optGet_def getProp_def ownGet_def readValueAtPath_def readValueAtPath_try_def
      jsonParse_def sampleParse_def aliceText_def alicePrinted_def)

text \<open>
  Claim C8, amended. The walk goes through the segments from left to right. With the
  empty path (or none) the result is the root itself, whatever it is. At each step there
  are three cases. The current value has an own property under the segment (an entry of
  an object, an element or named property of an array, a character of a string: a string
  is indexed, an index below its length steps to the string of that one character): the
  walk steps to it. The current value is \<^verbatim>\<open>null\<close> or \<^verbatim>\<open>undefined\<close>, or it has no own
  property under the segment and the segment is not a name of the host (see
  \<open>noProperty\<close>): the result is \<^verbatim>\<open>undefined\<close>, whatever segments follow. Otherwise the
  segment is a name that the host answers (\<^verbatim>\<open>length\<close>, \<^verbatim>\<open>__proto__\<close>, an inherited
  property), and the walk continues from what the host supplies. The walk never throws.
  The function is pure: it returns a value and changes nothing.
\<close>

theorem get_walk:
  "readLoop host r [] = Returns r
   \<and> (own r (toPropertyKey s) = Some x \<longrightarrow> readLoop host r (s # rest) = readLoop host x rest)
   \<and> (noProperty host r (toPropertyKey s) \<longrightarrow> readLoop host r (s # rest) = Returns JUndefined)
   \<and> (r \<noteq> JNull \<and> r \<noteq> JUndefined \<and> own r (toPropertyKey s) = None \<and> hostName host (toPropertyKey s) \<longrightarrow>
        readLoop host r (s # rest) = Host)
   \<and> (toPropertyKey s = KIdx i \<and> i < length t \<longrightarrow>
        readLoop host (JStr t) (s # rest) = readLoop host (JStr [t ! i]) rest)
   \<and> readLoop host r p \<noteq> Throws e
   \<and> (parse doc = Some r \<longrightarrow>
        readValueAtPath host parse doc None = Returns r
        \<and> readValueAtPath host parse doc (Some []) = Returns r)"
proof -
  have step: "own r (toPropertyKey s) = Some x \<longrightarrow> readLoop host r (s # rest) = readLoop host x rest"
    by (simp add: optGet_own)
  have stop: "noProperty host r (toPropertyKey s) \<longrightarrow> readLoop host r (s # rest) = Returns JUndefined"
    by (simp add: optGet_noProperty readLoop_undefined)
  have ask: "r \<noteq> JNull \<and> r \<noteq> JUndefined \<and> own r (toPropertyKey s) = None \<and> hostName host (toPropertyKey s) \<longrightarrow>
        readLoop host r (s # rest) = Host"
    by (simp add: optGet_host)
  have str: "toPropertyKey s = KIdx i \<and> i < length t \<longrightarrow>
        readLoop host (JStr t) (s # rest) = readLoop host (JStr [t ! i]) rest"
    by (simp add: optGet_def getProp_def ownGet_def)
  have safe: "readLoop host r p \<noteq> Throws e"
    by (rule readLoop_not_Throws)
  have root: "parse doc = Some r \<longrightarrow>
        readValueAtPath host parse doc None = Returns r
        \<and> readValueAtPath host parse doc (Some []) = Returns r"
    by (simp add: readValueAtPath_def readValueAtPath_try_def jsonParse_def)
  from step stop ask str safe root show ?thesis by simp
qed

theorem get_walk_witness:
  "noProperty sampleHost (JObj [(KName ''a'', JNum 1)]) (toPropertyKey (SKey ''b''))
   \<and> readLoop sampleHost (JObj [(KName ''a'', JNum 1)]) [SKey ''b'', SIdx 0] = Returns JUndefined
   \<and> own (JObj [(KName ''a'', JStr ''xyz'')]) (toPropertyKey (SKey ''a'')) = Some (JStr ''xyz'')
   \<and> toPropertyKey (SIdx 2) = KIdx 2 \<and> 2 < length ''xyz''
   \<and> readLoop sampleHost (JObj [(KName ''a'', JStr ''xyz'')]) [SKey ''a'', SIdx 2] = Returns (JStr ''z'')
   \<and> hostName sampleHost (toPropertyKey (SKey ''toString''))
   \<and> readLoop sampleHost (JNum 5) [SKey ''toString'', SKey ''a''] = Host
   \<and> sampleParse ''5'' = Some (JNum 5)
   \<and> readValueAtPath sampleHost sampleParse ''5'' (Some []) = Returns (JNum 5)"
proof -
  have kb: "toPropertyKey (SKey ''b'') = KName ''b''"
    and ka: "toPropertyKey (SKey ''a'') = KName ''a''"
    and kt: "toPropertyKey (SKey ''toString'') = KName ''toString''"
    by (simp_all add: arrayIndex_def digit_def)
  have k2: "toPropertyKey (SIdx 2) = KIdx 2"
    by simp
  have p5: "sampleParse ''5'' = Some (JNum 5)"
    by (simp add: sampleParse_def aliceText_def alicePrinted_def)
  have n: "noProperty sampleHost (JObj [(KName ''a'', JNum 1)]) (KName ''b'')"
    by (simp add: noProperty_def sample_names)
  have o: "own (JObj [(KName ''a'', JStr ''xyz'')]) (KName ''a'') = Some (JStr ''xyz'')"
    by simp
  have t: "hostName sampleHost (KName ''toString'')"
    by (simp add: hostName_def sampleHost_def)
  have ot: "own (JNum 5) (KName ''toString'') = None"
    by simp
  have z: "readLoop sampleHost (JStr ''z'') [] = Returns (JStr ''z'')"
    by simp
  have w1: "readLoop sampleHost (JObj [(KName ''a'', JNum 1)]) [SKey ''b'', SIdx 0] = Returns JUndefined"
    using get_walk [of sampleHost "JObj [(KName ''a'', JNum 1)]" "SKey ''b''" JNull "[SIdx 0]"] n
    by (simp add: kb del: toPropertyKey.simps)
  have w2: "readLoop sampleHost (JStr ''xyz'') [SIdx 2] = Returns (JStr ''z'')"
    using get_walk [of sampleHost "JNull" "SIdx 2" JNull "[]" 2 "''xyz''"] k2
    by (simp del: readLoop.simps toPropertyKey.simps add: z)
  have w3: "readLoop sampleHost (JObj [(KName ''a'', JStr ''xyz'')]) [SKey ''a'', SIdx 2] = Returns (JStr ''z'')"
    using get_walk [of sampleHost "JObj [(KName ''a'', JStr ''xyz'')]" "SKey ''a''" "JStr ''xyz''" "[SIdx 2]"] o w2
    by (simp add: ka del: toPropertyKey.simps)
  have w4: "readLoop sampleHost (JNum 5) [SKey ''toString'', SKey ''a''] = Host"
    using get_walk [of sampleHost "JNum 5" "SKey ''toString''" JNull "[SKey ''a'']"] t ot
    by (simp add: kt del: toPropertyKey.simps)
  have w5: "readValueAtPath sampleHost sampleParse ''5'' (Some []) = Returns (JNum 5)"
    using get_walk [of sampleHost "JNum 5" "SKey ''a''" JNull "[]" 0 "[]" "[]" SyntaxError sampleParse "''5''"] p5
    by simp
  from n w1 o k2 w3 t w4 p5 w5 show ?thesis
    by (simp add: kb ka kt del: toPropertyKey.simps)
qed

subsection \<open>\<^verbatim>\<open>writeJsonAtPath\<close> on a failure\<close>









subsection \<open>The helpers catch what they throw\<close>







subsection \<open>Committing over a document that is not valid JSON\<close>

text \<open>
  Claim C1 says that a commit over a document text that is not valid JSON aborts with a
  failure and writes to no store. \<^verbatim>\<open>commitEdit\<close> does otherwise: its helpers swallow the
  parse error, so its \<^verbatim>\<open>try\<close> block runs to its end and its \<^verbatim>\<open>catch\<close>, the only place
  that raises the alert, is not reached. It writes the unchanged text to the JSON store
  and to the file store, marks the file as changed, hands the raw text to the graph store
  and leaves edit mode as after a successful save.
\<close>

theorem commit_invalid_document:
  "parse (json st) = None \<longrightarrow>
     commitEdit host parse stringify path st =
       Returns (st\<lparr> json := json st, contents := json st, hasChanges := True,
                     graph := Raw (json st), editing := False, baseline := draft st \<rparr>)"
proof
  assume p: "parse (json st) = None"
  obtain x where x: "coerceInputValue parse (draft st) = Returns x"
    using coerceInputValue_returns by blast
  from p have r: "readValueAtPath host parse (json st) path = Returns JNull"
    by (simp add: readValueAtPath_def readValueAtPath_try_def jsonParse_def)
  from p have w: "writeJsonAtPath host parse stringify (json st) path (merged JNull x) = Returns (json st)"
    by (simp add: writeJsonAtPath_def writeJsonAtPath_try_def jsonParse_def)
  from p show "commitEdit host parse stringify path st =
       Returns (st\<lparr> json := json st, contents := json st, hasChanges := True,
                     graph := Raw (json st), editing := False, baseline := draft st \<rparr>)"
    by (simp add: commitEdit_def x r w)
qed

theorem commit_invalid_document_witness:
  "sampleParse (json brokenEditor) = None
   \<and> commitEdit sampleHost sampleParse samplePrint (Some [SKey ''a'']) brokenEditor =
       Returns \<lparr> json = ''{invalid'', contents = ''{invalid'', hasChanges = True, graph = Raw ''{invalid'',
                 editing = False, draft = ''5'', baseline = ''5'' \<rparr>
   \<and> commitEdit sampleHost sampleParse samplePrint (Some [SKey ''a'']) brokenEditor \<noteq> Returns brokenEditor"
proof -
  have p: "sampleParse (json brokenEditor) = None"
    by (simp add: brokenEditor_def sampleParse_def aliceText_def alicePrinted_def)
  show ?thesis
    using commit_invalid_document [of sampleParse brokenEditor sampleHost samplePrint "Some [SKey ''a'']"] p
    by (simp add: brokenEditor_def)
qed

text \<open>\<^verbatim>\<open>handleNodeSave\<close>, the other save path, does abort without a write.\<close>

lemma handleNodeSave_invalid_document:
  "parse (contents st) = None \<Longrightarrow> handleNodeSave host parse stringify path v st = Returns st"
  by (simp add: handleNodeSave_def jsonParse_def)

subsection \<open>The stores after a commit\<close>









subsection \<open>Path copying\<close>

text \<open>On the store: the fields of cells, and what a call leaves of the store it was given.\<close>

lemma list_all_ins: "list_all (\<lambda>p. P (snd p)) ps \<Longrightarrow> P v \<Longrightarrow> list_all (\<lambda>p. P (snd p)) (ins k v ps)"
  by (induction ps) auto

lemma list_all_replace: "list_all (\<lambda>p. P (snd p)) ps \<Longrightarrow> P v \<Longrightarrow> list_all (\<lambda>p. P (snd p)) (replace k v ps)"
  by (induction ps) auto

lemma list_all_put: "list_all (\<lambda>p. P (snd p)) ps \<Longrightarrow> P v \<Longrightarrow> list_all (\<lambda>p. P (snd p)) (put k v ps)"
  by (simp add: put_def list_all_ins list_all_replace split: option.splits)

lemma list_all_setIndex: "list_all P xs \<Longrightarrow> P v \<Longrightarrow> P hole \<Longrightarrow> list_all P (setIndex hole xs i v)"
  by (auto simp: setIndex_def list_all_iff dest: set_update_subset_insert [THEN subsetD])

lemma cellAll_get: "cellAll P c \<Longrightarrow> P HUndefined \<Longrightarrow> P (cellGet c k)"
  by (cases c; cases k)
    (auto simp: cellGet_def list_all_iff dest!: map_of_SomeD split: option.splits if_splits)

lemma cellAll_set: "cellAll P c \<Longrightarrow> P v \<Longrightarrow> P HUndefined \<Longrightarrow> cellAll P (cellSet c k v)"
  by (cases c; cases k) (simp_all add: list_all_put list_all_setIndex)

lemma cellAll_mono: "cellAll P c \<Longrightarrow> (\<And>x. P x \<Longrightarrow> Q x) \<Longrightarrow> cellAll Q c"
  by (cases c) (auto simp: list_all_iff)

lemma cellAll_empty: "cellAll P (emptyCell head)"
  by (cases head) (simp_all add: emptyCell_def)

lemma cellAll_clone: "list_all (cellAll P) h \<Longrightarrow> cellAll P (cloneCell h r head)"
  by (auto simp: cloneCell_def deref_def cellAll_empty list_all_length split: hval.splits cell.splits)

lemma cellGet_set_same:
  "\<not> (cellOwn c k = None \<and> hostName host k) \<Longrightarrow> cellGet (cellSet c k v) k = v"
  by (cases c; cases k) (auto simp: cellGet_def map_of_put setIndex_nth)

lemma cellGet_set_other: "k' \<noteq> k \<Longrightarrow> cellGet (cellSet c k v) k' = cellGet c k'"
  by (cases c; cases k; cases k') (auto simp: cellGet_def map_of_put setIndex_def nth_append)

lemma walkH_undefined: "walkH h HUndefined q = HUndefined"
  by (induction q) simp_all

lemma setAtPathH_Cons:
  "setAtPathH host h r (head # rest) v =
     (if cellOwn (cloneCell h r head) (toPropertyKey head) = None \<and> hostName host (toPropertyKey head)
      then Host
      else (case setAtPathH host (h @ [cloneCell h r head])
                   (cellGet (cloneCell h r head) (toPropertyKey head)) rest v of
              Returns (h2, sub) \<Rightarrow>
                (case cellWrite host (h2 ! length h) (toPropertyKey head) sub of
                   Returns c \<Rightarrow> Returns (h2[length h := c], HRef (length h))
                 | Throws e \<Rightarrow> Throws e
                 | Host \<Rightarrow> Host)
            | Throws e \<Rightarrow> Throws e
            | Host \<Rightarrow> Host))"
proof (cases rest)
  case Nil
  then show ?thesis by (simp add: Let_def cellWrite_def)
next
  case (Cons t ts)
  show ?thesis
    unfolding Cons
    by (subst setAtPathH.simps(2)) (simp add: Let_def cellRead_def del: setAtPathH.simps)
qed

lemma setAtPathH_unfold:
  assumes "setAtPathH host h r (head # rest) v = Returns (h', r')"
  shows "\<exists>h2 sub c.
     setAtPathH host (h @ [cloneCell h r head]) (cellGet (cloneCell h r head) (toPropertyKey head)) rest v
       = Returns (h2, sub)
     \<and> \<not> (cellOwn (cloneCell h r head) (toPropertyKey head) = None \<and> hostName host (toPropertyKey head))
     \<and> cellWrite host (h2 ! length h) (toPropertyKey head) sub = Returns c
     \<and> h' = h2[length h := c] \<and> r' = HRef (length h)"
  using assms
  by (simp only: setAtPathH_Cons split: if_splits outcome.splits prod.splits) auto

lemma setAtPathH_extends:
  "setAtPathH host h r p v = Returns (h', r') \<Longrightarrow> \<exists>ext. h' = h @ ext"
proof (induction p arbitrary: h r h' r')
  case Nil
  then show ?case by simp
next
  case (Cons head rest)
  let ?fresh = "cloneCell h r head" and ?key = "toPropertyKey head"
  from setAtPathH_unfold [OF Cons.prems] obtain h2 sub c where
    rec: "setAtPathH host (h @ [?fresh]) (cellGet ?fresh ?key) rest v = Returns (h2, sub)"
    and h': "h' = h2[length h := c]"
    by blast
  from Cons.IH [OF rec] obtain ext where h2: "h2 = (h @ [?fresh]) @ ext" by blast
  with h' have "h' = h @ ([c] @ ext)"
    by (simp add: list_update_append)
  then show ?case by blast
qed

lemma setAtPathH_step:
  assumes "setAtPathH host h r (head # rest) v = Returns (h', r')"
  shows "\<exists>h2 sub ext.
     setAtPathH host (h @ [cloneCell h r head]) (cellGet (cloneCell h r head) (toPropertyKey head)) rest v
       = Returns (h2, sub)
     \<and> \<not> (cellOwn (cloneCell h r head) (toPropertyKey head) = None \<and> hostName host (toPropertyKey head))
     \<and> h2 = h @ [cloneCell h r head] @ ext
     \<and> h' = h2[length h := cellSet (cloneCell h r head) (toPropertyKey head) sub]
     \<and> h' = h @ [cellSet (cloneCell h r head) (toPropertyKey head) sub] @ ext
     \<and> r' = HRef (length h)"
proof -
  let ?fresh = "cloneCell h r head" and ?key = "toPropertyKey head"
  from setAtPathH_unfold [OF assms] obtain h2 sub c where
    rec: "setAtPathH host (h @ [?fresh]) (cellGet ?fresh ?key) rest v = Returns (h2, sub)"
    and nh: "\<not> (cellOwn ?fresh ?key = None \<and> hostName host ?key)"
    and wr: "cellWrite host (h2 ! length h) ?key sub = Returns c"
    and a: "h' = h2[length h := c]" and r: "r' = HRef (length h)"
    by blast
  from setAtPathH_extends [OF rec] obtain ext where h2: "h2 = h @ [?fresh] @ ext" by auto
  then have n: "h2 ! length h = ?fresh" by (simp add: nth_append)
  from wr nh have c: "c = cellSet ?fresh ?key sub"
    by (simp add: n cellWrite_def split: if_splits)
  from a h2 c have b: "h' = h @ [cellSet ?fresh ?key sub] @ ext"
    by (simp add: list_update_append)
  from rec nh h2 a c b r show ?thesis by blast
qed

lemma setAtPathH_returns:
  "dataPath host p \<Longrightarrow> \<exists>h' r'. setAtPathH host h r p v = Returns (h', r')"
proof (induction p arbitrary: h r)
  case Nil
  show ?case by simp
next
  case (Cons head rest)
  let ?fresh = "cloneCell h r head" and ?key = "toPropertyKey head"
  from Cons.prems have k: "\<not> hostName host ?key" and d: "dataPath host rest"
    by (simp_all add: dataPath_Cons)
  from Cons.IH [OF d, of "h @ [?fresh]" "cellGet ?fresh ?key"] obtain h2 sub where
    "setAtPathH host (h @ [?fresh]) (cellGet ?fresh ?key) rest v = Returns (h2, sub)"
    by blast
  with k show ?case
    by (simp only: setAtPathH_Cons) (simp add: cellWrite_def)
qed

lemma setAtPathH_length:
  "setAtPathH host h r p v = Returns (h', r') \<Longrightarrow> length h' = length h + length p"
proof (induction p arbitrary: h r h' r')
  case Nil
  then show ?case by simp
next
  case (Cons head rest)
  from setAtPathH_step [OF Cons.prems] obtain h2 sub where
    rec: "setAtPathH host (h @ [cloneCell h r head])
            (cellGet (cloneCell h r head) (toPropertyKey head)) rest v = Returns (h2, sub)"
    and h': "h' = h2[length h := cellSet (cloneCell h r head) (toPropertyKey head) sub]"
    by blast
  from Cons.IH [OF rec] h' show ?case by simp
qed

lemma setAtPathH_avoids:
  "setAtPathH host h r p v = Returns (h', r') \<Longrightarrow> c < length h \<Longrightarrow>
   list_all (cellAll (\<lambda>x. x \<noteq> HRef c)) h \<Longrightarrow> v \<noteq> HRef c \<Longrightarrow>
   list_all (cellAll (\<lambda>x. x \<noteq> HRef c)) h' \<and> r' \<noteq> HRef c"
proof (induction p arbitrary: h r h' r')
  case Nil
  then show ?case by simp
next
  case (Cons head rest)
  let ?fresh = "cloneCell h r head" and ?key = "toPropertyKey head"
  let ?P = "\<lambda>x. x \<noteq> HRef c"
  from setAtPathH_step [OF Cons.prems(1)] obtain h2 sub ext where
    rec: "setAtPathH host (h @ [?fresh]) (cellGet ?fresh ?key) rest v = Returns (h2, sub)"
    and h': "h' = h2[length h := cellSet ?fresh ?key sub]" and r': "r' = HRef (length h)"
    by blast
  have fresh: "cellAll ?P ?fresh" using Cons.prems(3) by (rule cellAll_clone)
  with Cons.prems have "list_all (cellAll ?P) (h @ [?fresh])" by simp
  with Cons.IH [OF rec] Cons.prems have ih: "list_all (cellAll ?P) h2 \<and> sub \<noteq> HRef c" by simp
  with fresh have "cellAll ?P (cellSet ?fresh ?key sub)" by (simp add: cellAll_set)
  with ih h' have "list_all (cellAll ?P) h'"
    by (auto simp: list_all_iff dest!: set_update_subset_insert [THEN subsetD])
  with r' Cons.prems(2) show ?case by simp
qed

lemma hGet_update_other: "x \<noteq> HRef c \<Longrightarrow> hGet (H[c := cl]) x k = hGet H x k"
  by (cases x; cases k) (simp_all add: deref_def)

lemma hGet_avoids:
  "list_all (cellAll (\<lambda>x. x \<noteq> HRef c)) H \<Longrightarrow> hGet H x k \<noteq> HRef c"
proof (cases x)
  case (HRef a)
  assume a: "list_all (cellAll (\<lambda>x. x \<noteq> HRef c)) H"
  show ?thesis
  proof (cases "a < length H")
    case True
    with a have "cellAll (\<lambda>x. x \<noteq> HRef c) (H ! a)" by (simp add: list_all_length)
    then have "cellGet (H ! a) k \<noteq> HRef c" by (rule cellAll_get) simp
    with True HRef show ?thesis by (simp add: deref_def)
  next
    case False
    with HRef show ?thesis by (simp add: deref_def)
  qed
qed (cases k; simp)+

lemma walkH_update_unreferenced:
  "list_all (cellAll (\<lambda>x. x \<noteq> HRef c)) H \<Longrightarrow> x \<noteq> HRef c \<Longrightarrow>
   walkH (H[c := cl]) x q = walkH H x q"
proof (induction q arbitrary: x)
  case Nil
  show ?case by simp
next
  case (Cons k ks)
  from Cons.prems have "hGet H x k \<noteq> HRef c" by (simp add: hGet_avoids)
  with Cons show ?case by (simp add: hGet_update_other)
qed

lemma hGet_append: "refBelow (length h) x \<Longrightarrow> hGet (h @ ext) x k = hGet h x k"
  by (cases x; cases k) (simp_all add: deref_def nth_append)

lemma hGet_refBelow: "wfHeap h \<Longrightarrow> refBelow (length h) (hGet h x k)"
proof (cases x)
  case (HRef a)
  assume w: "wfHeap h"
  show ?thesis
  proof (cases "a < length h")
    case True
    with w have "cellAll (refBelow (length h)) (h ! a)" by (simp add: wfHeap_def list_all_length)
    then have "refBelow (length h) (cellGet (h ! a) k)" by (rule cellAll_get) simp
    with True HRef show ?thesis by (simp add: deref_def)
  next
    case False
    with HRef show ?thesis by (simp add: deref_def)
  qed
qed (cases k; simp)+

lemma walkH_append:
  "wfHeap h \<Longrightarrow> refBelow (length h) x \<Longrightarrow> walkH (h @ ext) x q = walkH h x q"
proof (induction q arbitrary: x)
  case Nil
  show ?case by simp
next
  case (Cons k ks)
  from Cons.prems have "refBelow (length h) (hGet h x k)" by (simp add: hGet_refBelow)
  with Cons show ?case by (simp add: hGet_append)
qed

lemma refBelow_mono: "refBelow n x \<Longrightarrow> n \<le> m \<Longrightarrow> refBelow m x"
  by (cases x) simp_all

lemma refBelow_avoids: "refBelow n x \<Longrightarrow> n \<le> c \<Longrightarrow> x \<noteq> HRef c"
  by (cases x) simp_all

lemma wfHeap_clone:
  assumes "wfHeap h"
  shows "wfHeap (h @ [cloneCell h r head])"
proof -
  from assms have a: "list_all (cellAll (refBelow (length h))) h" by (simp add: wfHeap_def)
  then have "cellAll (refBelow (length h)) (cloneCell h r head)" by (rule cellAll_clone)
  with a have "list_all (cellAll (refBelow (length h))) (h @ [cloneCell h r head])" by simp
  then have "list_all (cellAll (refBelow (Suc (length h)))) (h @ [cloneCell h r head])"
    by (auto simp: list_all_iff elim!: cellAll_mono refBelow_mono)
  then show ?thesis by (simp add: wfHeap_def)
qed

lemma avoids_clone:
  assumes "wfHeap h"
  shows "list_all (cellAll (\<lambda>x. x \<noteq> HRef (length h))) (h @ [cloneCell h r head])"
proof -
  from assms have a: "list_all (cellAll (refBelow (length h))) h" by (simp add: wfHeap_def)
  then have "cellAll (refBelow (length h)) (cloneCell h r head)" by (rule cellAll_clone)
  with a have "list_all (cellAll (refBelow (length h))) (h @ [cloneCell h r head])" by simp
  then show ?thesis
    by (auto simp: list_all_iff elim!: cellAll_mono refBelow_avoids)
qed

lemma cellGet_clone:
  "cellGet (cloneCell h r head) k = HUndefined \<or> cellGet (cloneCell h r head) k = hGet h r k"
  by (cases r; cases k; cases head)
    (auto simp: cloneCell_def emptyCell_def deref_def cellGet_def split: cell.splits option.splits)

lemma cellGet_clone_copied:
  "copied h r k \<Longrightarrow> cellGet (cloneCell h r head) k = hGet h r k"
  by (cases r; cases k)
    (auto simp: cloneCell_def deref_def cellGet_def split: cell.splits option.splits if_splits)

lemma cellGet_clone_refBelow:
  "wfHeap h \<Longrightarrow> refBelow (length h) (cellGet (cloneCell h r head) k)"
  using cellGet_clone [of h r head k] hGet_refBelow [of h r k] by auto

text \<open>No reference leads to the root clone, so walks from its new field do not meet it.\<close>

lemma walk_below_clone:
  assumes step: "setAtPathH host (h @ [cloneCell h r head]) nl rest v = Returns (h2, sub)"
    and wf: "wfHeap h" and v: "refBelow (length h) v"
  shows "walkH (h2[length h := cl]) sub q = walkH h2 sub q"
proof -
  from v have "v \<noteq> HRef (length h)" by (rule refBelow_avoids) simp
  with setAtPathH_avoids [OF step, of "length h"] avoids_clone [OF wf]
  have "list_all (cellAll (\<lambda>x. x \<noteq> HRef (length h))) h2 \<and> sub \<noteq> HRef (length h)" by simp
  then show ?thesis by (simp add: walkH_update_unreferenced)
qed

lemma sharing:
  "setAtPathH host h r p v = Returns (h', r') \<Longrightarrow> wfHeap h \<Longrightarrow> refBelow (length h) v \<Longrightarrow>
   diverges q (map toPropertyKey p) \<Longrightarrow> walkH h' r' q \<noteq> HUndefined \<Longrightarrow>
   walkH h' r' q = walkH h r q"
proof (induction p arbitrary: h r h' r' q)
  case Nil
  then show ?case by simp
next
  case (Cons head rest)
  let ?fresh = "cloneCell h r head" and ?key = "toPropertyKey head"
  from Cons.prems(4) obtain k qs where q: "q = k # qs" by (cases q) simp_all
  from setAtPathH_step [OF Cons.prems(1)] obtain h2 sub ext where
    rec: "setAtPathH host (h @ [?fresh]) (cellGet ?fresh ?key) rest v = Returns (h2, sub)"
    and nh: "\<not> (cellOwn ?fresh ?key = None \<and> hostName host ?key)"
    and h'u: "h' = h2[length h := cellSet ?fresh ?key sub]"
    and h'a: "h' = h @ [cellSet ?fresh ?key sub] @ ext"
    and r': "r' = HRef (length h)"
    by blast
  from h'a have at: "hGet h' (HRef (length h)) k = cellGet (cellSet ?fresh ?key sub) k"
    by (simp add: deref_def nth_append)
  show ?case
  proof (cases "k = ?key")
    case False
    let ?x = "cellGet ?fresh k"
    from False at have w: "walkH h' r' q = walkH h' ?x qs"
      by (simp add: q r' cellGet_set_other)
    with Cons.prems(5) have "?x \<noteq> HUndefined" by (auto simp: walkH_undefined)
    with cellGet_clone [of h r head k] have x: "?x = hGet h r k" by simp
    have "refBelow (length h) ?x" using Cons.prems(2) by (rule cellGet_clone_refBelow)
    with Cons.prems(2) have "walkH h' ?x qs = walkH h ?x qs"
      unfolding h'a by (rule walkH_append)
    with w x show ?thesis by (simp add: q)
  next
    case True
    with Cons.prems(4) have d: "diverges qs (map toPropertyKey rest)" by (simp add: q)
    let ?nl = "cellGet ?fresh ?key"
    from True at nh have "walkH h' r' q = walkH h' sub qs"
      by (simp add: q r' cellGet_set_same [of ?fresh ?key host])
    also have "\<dots> = walkH h2 sub qs"
      unfolding h'u using rec Cons.prems(2,3) by (rule walk_below_clone)
    finally have w: "walkH h' r' q = walkH h2 sub qs" .
    have wf1: "wfHeap (h @ [?fresh])" using Cons.prems(2) by (rule wfHeap_clone)
    have v1: "refBelow (length (h @ [?fresh])) v"
      using Cons.prems(3) by (rule refBelow_mono) simp
    from w Cons.prems(5) have "walkH h2 sub qs \<noteq> HUndefined" by simp
    with Cons.IH [OF rec wf1 v1 d] have ih: "walkH h2 sub qs = walkH (h @ [?fresh]) ?nl qs" by simp
    have "refBelow (length h) ?nl" using Cons.prems(2) by (rule cellGet_clone_refBelow)
    with Cons.prems(2) have a: "walkH (h @ [?fresh]) ?nl qs = walkH h ?nl qs" by (rule walkH_append)
    from w ih a Cons.prems(5) have "?nl \<noteq> HUndefined" by (auto simp: walkH_undefined)
    with cellGet_clone [of h r head ?key] have "?nl = hGet h r ?key" by simp
    with w ih a True show ?thesis by (simp add: q)
  qed
qed

lemma copied_append: "refBelow (length h) x \<Longrightarrow> copied (h @ ext) x k = copied h x k"
  by (cases x) (simp_all add: deref_def nth_append)

lemma siblingOf_append:
  "wfHeap h \<Longrightarrow> refBelow (length h) x \<Longrightarrow> siblingOf (h @ ext) x q p = siblingOf h x q p"
proof (induction q arbitrary: x p)
  case Nil
  show ?case by simp
next
  case (Cons a as)
  show ?case
  proof (cases p)
    case Nil
    then show ?thesis by simp
  next
    case (Cons b bs)
    from Cons.prems have "refBelow (length h) (hGet h x a)" by (simp add: hGet_refBelow)
    with Cons.IH [of "hGet h x a" bs] Cons.prems Cons show ?thesis
      by (auto simp: copied_append hGet_append)
  qed
qed

lemma siblingOf_diverges: "siblingOf h x q p \<Longrightarrow> diverges q p"
  by (induction h x q p rule: siblingOf.induct) (auto split: if_splits)

lemma sharing_siblings:
  "setAtPathH host h r p v = Returns (h', r') \<Longrightarrow> wfHeap h \<Longrightarrow> refBelow (length h) v \<Longrightarrow>
   siblingOf h r q (map toPropertyKey p) \<Longrightarrow> walkH h' r' q = walkH h r q"
proof (induction p arbitrary: h r h' r' q)
  case Nil
  then show ?case by simp
next
  case (Cons head rest)
  let ?fresh = "cloneCell h r head" and ?key = "toPropertyKey head"
  from Cons.prems(4) obtain k qs where q: "q = k # qs" by (cases q) simp_all
  with Cons.prems(4) have cp: "copied h r k"
    and below: "k = ?key \<Longrightarrow> siblingOf h (hGet h r k) qs (map toPropertyKey rest)"
    by (simp_all split: if_splits)
  from setAtPathH_step [OF Cons.prems(1)] obtain h2 sub ext where
    rec: "setAtPathH host (h @ [?fresh]) (cellGet ?fresh ?key) rest v = Returns (h2, sub)"
    and nh: "\<not> (cellOwn ?fresh ?key = None \<and> hostName host ?key)"
    and h'u: "h' = h2[length h := cellSet ?fresh ?key sub]"
    and h'a: "h' = h @ [cellSet ?fresh ?key sub] @ ext"
    and r': "r' = HRef (length h)"
    by blast
  from h'a have at: "hGet h' (HRef (length h)) k = cellGet (cellSet ?fresh ?key sub) k"
    by (simp add: deref_def nth_append)
  have x: "cellGet ?fresh k = hGet h r k" using cp by (rule cellGet_clone_copied)
  have xb: "refBelow (length h) (hGet h r k)" using Cons.prems(2) by (rule hGet_refBelow)
  show ?case
  proof (cases "k = ?key")
    case False
    from False at have "walkH h' r' q = walkH h' (hGet h r k) qs"
      by (simp add: q r' cellGet_set_other x)
    also from Cons.prems(2) xb have "\<dots> = walkH h (hGet h r k) qs"
      unfolding h'a by (rule walkH_append)
    finally show ?thesis by (simp add: q)
  next
    case True
    from True at nh have "walkH h' r' q = walkH h' sub qs"
      by (simp add: q r' cellGet_set_same [of ?fresh ?key host])
    also have "\<dots> = walkH h2 sub qs"
      unfolding h'u using rec Cons.prems(2,3) by (rule walk_below_clone)
    finally have w: "walkH h' r' q = walkH h2 sub qs" .
    have wf1: "wfHeap (h @ [?fresh])" using Cons.prems(2) by (rule wfHeap_clone)
    have v1: "refBelow (length (h @ [?fresh])) v"
      using Cons.prems(3) by (rule refBelow_mono) simp
    from below [OF True] Cons.prems(2) xb
    have "siblingOf (h @ [?fresh]) (hGet h r k) qs (map toPropertyKey rest)"
      by (simp add: siblingOf_append)
    with x True have s1: "siblingOf (h @ [?fresh]) (cellGet ?fresh ?key) qs (map toPropertyKey rest)"
      by simp
    from Cons.IH [OF rec wf1 v1 s1] have "walkH h2 sub qs = walkH (h @ [?fresh]) (cellGet ?fresh ?key) qs" .
    also from x True have "\<dots> = walkH (h @ [?fresh]) (hGet h r k) qs" by simp
    also from Cons.prems(2) xb have "\<dots> = walkH h (hGet h r k) qs" by (rule walkH_append)
    finally show ?thesis using w by (simp add: q)
  qed
qed

lemma spine_fresh:
  "setAtPathH host h r p v = Returns (h', r') \<Longrightarrow> wfHeap h \<Longrightarrow> refBelow (length h) v \<Longrightarrow>
   properPrefix q (map toPropertyKey p) \<Longrightarrow> \<exists>a. walkH h' r' q = HRef a \<and> length h \<le> a"
proof (induction p arbitrary: h r h' r' q)
  case Nil
  then show ?case by simp
next
  case (Cons head rest)
  let ?fresh = "cloneCell h r head" and ?key = "toPropertyKey head"
  from setAtPathH_step [OF Cons.prems(1)] obtain h2 sub ext where
    rec: "setAtPathH host (h @ [?fresh]) (cellGet ?fresh ?key) rest v = Returns (h2, sub)"
    and nh: "\<not> (cellOwn ?fresh ?key = None \<and> hostName host ?key)"
    and h'u: "h' = h2[length h := cellSet ?fresh ?key sub]"
    and h'a: "h' = h @ [cellSet ?fresh ?key sub] @ ext"
    and r': "r' = HRef (length h)"
    by blast
  show ?case
  proof (cases q)
    case Nil
    with r' show ?thesis by simp
  next
    case (Cons k qs)
    with Cons.prems(4) have k: "k = ?key" and pp: "properPrefix qs (map toPropertyKey rest)"
      by simp_all
    from h'a have "hGet h' (HRef (length h)) k = cellGet (cellSet ?fresh ?key sub) k"
      by (simp add: deref_def nth_append)
    with k nh have "walkH h' r' q = walkH h' sub qs"
      by (simp add: Cons r' cellGet_set_same [of ?fresh ?key host])
    also have "\<dots> = walkH h2 sub qs"
      unfolding h'u using rec Cons.prems(2,3) by (rule walk_below_clone)
    finally have w: "walkH h' r' q = walkH h2 sub qs" .
    have wf1: "wfHeap (h @ [?fresh])" using Cons.prems(2) by (rule wfHeap_clone)
    have v1: "refBelow (length (h @ [?fresh])) v"
      using Cons.prems(3) by (rule refBelow_mono) simp
    from Cons.IH [OF rec wf1 v1 pp] obtain a where "walkH h2 sub qs = HRef a" "length (h @ [?fresh]) \<le> a"
      by blast
    with w show ?thesis by simp
  qed
qed

lemma walkH_refBelow:
  "wfHeap h \<Longrightarrow> refBelow (length h) x \<Longrightarrow> refBelow (length h) (walkH h x q)"
  by (induction q arbitrary: x) (simp_all add: hGet_refBelow)

lemma diverges_walk_refBelow:
  assumes "wfHeap h" and "diverges q p"
  shows "refBelow (length h) (walkH h r q)"
proof -
  from assms(2) obtain k qs where "q = k # qs" by (cases q) simp_all
  with assms(1) show ?thesis by (simp add: walkH_refBelow hGet_refBelow)
qed

lemma setAtPathH_get:
  "setAtPathH host h r p v = Returns (h', r') \<Longrightarrow> wfHeap h \<Longrightarrow> refBelow (length h) v \<Longrightarrow>
   walkH h' r' (map toPropertyKey p) = v"
proof (induction p arbitrary: h r h' r')
  case Nil
  then show ?case by simp
next
  case (Cons head rest)
  let ?fresh = "cloneCell h r head" and ?key = "toPropertyKey head"
  from setAtPathH_step [OF Cons.prems(1)] obtain h2 sub ext where
    rec: "setAtPathH host (h @ [?fresh]) (cellGet ?fresh ?key) rest v = Returns (h2, sub)"
    and nh: "\<not> (cellOwn ?fresh ?key = None \<and> hostName host ?key)"
    and h'u: "h' = h2[length h := cellSet ?fresh ?key sub]"
    and h'a: "h' = h @ [cellSet ?fresh ?key sub] @ ext"
    and r': "r' = HRef (length h)"
    by blast
  from h'a have "hGet h' (HRef (length h)) ?key = cellGet (cellSet ?fresh ?key sub) ?key"
    by (simp add: deref_def nth_append)
  with nh have "walkH h' r' (map toPropertyKey (head # rest)) = walkH h' sub (map toPropertyKey rest)"
    by (simp add: r' cellGet_set_same [of ?fresh ?key host])
  also have "\<dots> = walkH h2 sub (map toPropertyKey rest)"
    unfolding h'u using rec Cons.prems(2,3) by (rule walk_below_clone)
  finally have w: "walkH h' r' (map toPropertyKey (head # rest)) = walkH h2 sub (map toPropertyKey rest)" .
  have wf1: "wfHeap (h @ [?fresh])" using Cons.prems(2) by (rule wfHeap_clone)
  have v1: "refBelow (length (h @ [?fresh])) v"
    using Cons.prems(3) by (rule refBelow_mono) simp
  from Cons.IH [OF rec wf1 v1] w show ?case by simp
qed

text \<open>
  The function on the store computes the function on values: from representations of
  the root and of the new value, where it returns, \<open>setAtPath\<close> returns as well, and what
  the store function returns represents what \<open>setAtPath\<close> returns.
\<close>

lemma repr_ref: "repr h (HRef a) t \<longleftrightarrow> a < length h \<and> cellRepr (repr h) (h ! a) t"
  by (auto elim: repr.cases intro: repr.intros elim!: cellRepr.elims)

lemma cellRepr_mono: "cellRepr R c t \<Longrightarrow> (\<And>x y. R x y \<Longrightarrow> Q x y) \<Longrightarrow> cellRepr Q c t"
  by (induction R c t rule: cellRepr.induct) (auto elim!: list_all2_mono)

lemma repr_append: "repr h x t \<Longrightarrow> repr (h @ ext) x t"
proof (induction rule: repr.induct)
  case (reprArr a h xs ps ys qs)
  then show ?case
    by (auto simp: repr_ref nth_append elim!: list_all2_mono)
next
  case (reprObj a h ps qs)
  then show ?case
    by (auto simp: repr_ref nth_append elim!: list_all2_mono)
qed (auto intro: repr.intros)

lemma repr_update_unreferenced:
  "repr H x t \<Longrightarrow> list_all (cellAll (\<lambda>x. x \<noteq> HRef c)) H \<Longrightarrow> x \<noteq> HRef c \<Longrightarrow>
   repr (H[c := cl]) x t"
proof (induction rule: repr.induct)
  case (reprArr a h xs ps ys qs)
  from reprArr.prems reprArr.hyps(1,2) have "cellAll (\<lambda>x. x \<noteq> HRef c) (CArr xs ps)"
    by (auto simp: list_all_length)
  with reprArr show ?case
    by (auto simp: repr_ref list_all2_conv_all_nth list_all_length)
next
  case (reprObj a h ps qs)
  from reprObj.prems reprObj.hyps(1,2) have "cellAll (\<lambda>x. x \<noteq> HRef c) (CObj ps)"
    by (auto simp: list_all_length)
  with reprObj show ?case
    by (auto simp: repr_ref list_all2_conv_all_nth list_all_length)
qed (auto intro: repr.intros)

lemma related_map_of:
  "list_all2 (\<lambda>p q. fst p = fst q \<and> R (snd p) (snd q)) ps qs \<Longrightarrow>
   rel_option R (map_of ps k) (map_of qs k)"
  by (induction ps qs rule: list_all2_induct) auto

lemma related_ins:
  "list_all2 (\<lambda>p q. fst p = fst q \<and> R (snd p) (snd q)) ps qs \<Longrightarrow> R v t \<Longrightarrow>
   list_all2 (\<lambda>p q. fst p = fst q \<and> R (snd p) (snd q)) (ins k v ps) (ins k t qs)"
  by (induction ps qs rule: list_all2_induct) auto

lemma related_replace:
  "list_all2 (\<lambda>p q. fst p = fst q \<and> R (snd p) (snd q)) ps qs \<Longrightarrow> R v t \<Longrightarrow>
   list_all2 (\<lambda>p q. fst p = fst q \<and> R (snd p) (snd q)) (replace k v ps) (replace k t qs)"
  by (induction ps qs rule: list_all2_induct) auto

lemma related_put:
  assumes "list_all2 (\<lambda>p q. fst p = fst q \<and> R (snd p) (snd q)) ps qs" and "R v t"
  shows "list_all2 (\<lambda>p q. fst p = fst q \<and> R (snd p) (snd q)) (put k v ps) (put k t qs)"
  using related_map_of [OF assms(1), of k] assms
  by (auto simp: put_def related_ins related_replace split: option.splits)

lemma related_setIndex:
  "list_all2 R xs ys \<Longrightarrow> R v t \<Longrightarrow> R hole hole' \<Longrightarrow>
   list_all2 R (setIndex hole xs i v) (setIndex hole' ys i t)"
  by (auto simp: setIndex_def list_all2_conv_all_nth nth_append nth_list_update)

lemma cellRepr_own: "cellRepr R c t \<Longrightarrow> rel_option R (cellOwn c k) (own t k)"
proof (induction R c t rule: cellRepr.induct)
  case (1 R xs ps ys qs)
  with related_map_of [of R ps qs k] show ?case
    by (cases k) (auto simp: list_all2_conv_all_nth)
next
  case (2 R ps qs)
  with related_map_of [of R ps qs k] show ?case by simp
qed simp_all

lemma cellRepr_get:
  "cellRepr R c t \<Longrightarrow> R HUndefined JUndefined \<Longrightarrow> R (cellGet c k) (ownGet t k)"
  using cellRepr_own [of R c t k]
  by (auto simp: cellGet_def ownGet_def elim: option.rel_cases)

lemma cellRepr_none: "cellRepr R c t \<Longrightarrow> (cellOwn c k = None) = (own t k = None)"
  using cellRepr_own [of R c t k]
  by (auto elim: option.rel_cases)

lemma cellRepr_set:
  "cellRepr R c t \<Longrightarrow> R v u \<Longrightarrow> R HUndefined JUndefined \<Longrightarrow>
   \<exists>t'. withProp t k u = Some t' \<and> cellRepr R (cellSet c k v) t'"
proof (induction R c t rule: cellRepr.induct)
  case (1 R xs ps ys qs)
  then show ?case
    by (cases k) (simp_all add: related_put related_setIndex)
next
  case (2 R ps qs)
  then show ?case by (simp add: related_put)
qed simp_all

lemma cellRepr_clone:
  "repr h r t \<Longrightarrow> cellRepr (repr h) (cloneCell h r head) (clone t head)"
proof (induction rule: repr.cases)
  case (reprArr a h xs ps ys qs)
  then show ?case by (simp add: cloneCell_def deref_def)
next
  case (reprObj a h ps qs)
  then show ?case by (simp add: cloneCell_def deref_def)
qed (cases head; simp add: cloneCell_def emptyCell_def emptyFor_def)+

lemma setAtPathH_refines:
  "setAtPathH host h r p v = Returns (h', r') \<Longrightarrow> wfHeap h \<Longrightarrow> refBelow (length h) v \<Longrightarrow>
   repr h r t \<Longrightarrow> repr h v u \<Longrightarrow> \<exists>t'. setAtPath host t p u = Returns t' \<and> repr h' r' t'"
proof (induction p arbitrary: h r h' r' t)
  case Nil
  then show ?case by simp
next
  case (Cons head rest)
  let ?fresh = "cloneCell h r head" and ?key = "toPropertyKey head"
  let ?tc = "clone t head"
  from setAtPathH_step [OF Cons.prems(1)] obtain h2 sub ext where
    rec: "setAtPathH host (h @ [?fresh]) (cellGet ?fresh ?key) rest v = Returns (h2, sub)"
    and nh: "\<not> (cellOwn ?fresh ?key = None \<and> hostName host ?key)"
    and h'u: "h' = h2[length h := cellSet ?fresh ?key sub]"
    and h'a: "h' = h @ [cellSet ?fresh ?key sub] @ ext"
    and r': "r' = HRef (length h)"
    by blast
  have und: "\<And>g. repr g HUndefined JUndefined" by (rule repr.intros)
  have cl: "cellRepr (repr h) ?fresh ?tc" using Cons.prems(4) by (rule cellRepr_clone)
  then have nl: "repr h (cellGet ?fresh ?key) (ownGet ?tc ?key)"
    using und by (rule cellRepr_get)
  from nh cellRepr_none [OF cl, of ?key]
  have nt: "\<not> (own ?tc ?key = None \<and> hostName host ?key)" by simp
  have wf1: "wfHeap (h @ [?fresh])" using Cons.prems(2) by (rule wfHeap_clone)
  have v1: "refBelow (length (h @ [?fresh])) v"
    using Cons.prems(3) by (rule refBelow_mono) simp
  have "\<exists>ts. setAtPath host (ownGet ?tc ?key) rest u = Returns ts \<and> repr h2 sub ts"
    using rec wf1 v1 repr_append [OF nl] repr_append [OF Cons.prems(5)] by (rule Cons.IH)
  then obtain ts where ts: "setAtPath host (ownGet ?tc ?key) rest u = Returns ts"
    and rs: "repr h2 sub ts" by blast
  from Cons.prems(3) have "v \<noteq> HRef (length h)" by (rule refBelow_avoids) simp
  with setAtPathH_avoids [OF rec, of "length h"] avoids_clone [OF Cons.prems(2)]
  have "list_all (cellAll (\<lambda>x. x \<noteq> HRef (length h))) h2 \<and> sub \<noteq> HRef (length h)" by simp
  with rs have sub: "repr h' sub ts"
    unfolding h'u by (simp add: repr_update_unreferenced)
  from cl have "cellRepr (repr h') ?fresh ?tc"
    unfolding h'a by (rule cellRepr_mono) (rule repr_append)
  from cellRepr_set [OF this sub und, of ?key] obtain t' where
    wp: "withProp ?tc ?key ts = Some t'" and ct: "cellRepr (repr h') (cellSet ?fresh ?key sub) t'"
    by blast
  from setProp_container [OF isContainer_clone nt, of ts] wp
  have sp: "setProp host ?tc ?key ts = Returns t'" by auto
  from h'a have "length h < length h'" and "h' ! length h = cellSet ?fresh ?key sub"
    by (simp_all add: nth_append)
  with ct have "repr h' (HRef (length h)) t'"
    by (simp add: repr_ref)
  moreover from nt ts sp have "setAtPath host t (head # rest) u = Returns t'"
    by (simp only: setAtPath_Cons) simp
  ultimately show ?case by (simp only: r') blast
qed

text \<open>
  Claim C2 as stated covers every position that is not an ancestor of the target or the
  target. A position below the target is such a position, and there the result holds a
  part of the new value, not the part of the original: after setting \<^verbatim>\<open>{"b":2}\<close> at
  \<^verbatim>\<open>["a"]\<close> in \<^verbatim>\<open>{"a":{"b":1},"c":[7,8]}\<close>, position \<^verbatim>\<open>["a","b"]\<close> holds 2, not 1.
\<close>

lemma sample_wf: "wfHeap sampleHeap"
  by (simp add: wfHeap_def sampleHeap_def)

theorem path_copying_counterexample:
  "wfHeap sampleHeap \<and> refBelow (length sampleHeap) (HRef 3)
   \<and> setAtPathH sampleHost sampleHeap (HRef 2) [SKey ''a''] (HRef 3) =
       Returns (sampleHeap @ [CObj [(KName ''a'', HRef 3), (KName ''c'', HRef 1)]], HRef 4)
   \<and> \<not> properPrefix [KName ''a'', KName ''b''] (map toPropertyKey [SKey ''a''])
   \<and> [KName ''a'', KName ''b''] \<noteq> map toPropertyKey [SKey ''a'']
   \<and> walkH (sampleHeap @ [CObj [(KName ''a'', HRef 3), (KName ''c'', HRef 1)]]) (HRef 4)
        [KName ''a'', KName ''b''] = HNum 2
   \<and> walkH sampleHeap (HRef 2) [KName ''a'', KName ''b''] = HNum 1"
proof -
  have v: "refBelow (length sampleHeap) (HRef 3)"
    by (simp add: sampleHeap_def)
  have run: "setAtPathH sampleHost sampleHeap (HRef 2) [SKey ''a''] (HRef 3) =
       Returns (sampleHeap @ [CObj [(KName ''a'', HRef 3), (KName ''c'', HRef 1)]], HRef 4)"
    by (simp add: sampleHeap_def key_a cloneCell_def deref_def put_def cellWrite_def
        del: toPropertyKey.simps)
  have pos: "\<not> properPrefix [KName ''a'', KName ''b''] (map toPropertyKey [SKey ''a''])
      \<and> [KName ''a'', KName ''b''] \<noteq> map toPropertyKey [SKey ''a'']"
    by (simp add: key_a del: toPropertyKey.simps)
  have w: "walkH (sampleHeap @ [CObj [(KName ''a'', HRef 3), (KName ''c'', HRef 1)]]) (HRef 4)
        [KName ''a'', KName ''b''] = HNum 2
      \<and> walkH sampleHeap (HRef 2) [KName ''a'', KName ''b''] = HNum 1"
    by (simp add: sampleHeap_def deref_def cellGet_def)
  from sample_wf v run pos w show ?thesis by blast
qed

text \<open>
  Claim C2, amended. Where \<^verbatim>\<open>setAtPath\<close> returns, and on a path of data it does, it has
  changed no cell of the store it started from, so the document and all its parts are as
  before; it has allocated one cell for each segment of the path and no other. Every part
  of the original that lies next to the path (in a container on the path, under a
  property that the copy of that container receives: any property of an object, any
  element of an array) is found in the result at the same position, as the very same
  value or reference. Conversely, every part of the result at a position that branches
  off the path (neither an ancestor of the target, nor the target, nor below it) is the
  value or reference found at that position in the original, a reference into the
  unchanged part of the store. The containers on the path, from the root down to the one
  that holds the target, are the cells allocated by the call. The target holds the new
  value, so that what lies below the target belongs to the new value.
\<close>

theorem path_copying:
  "wfHeap h \<and> refBelow (length h) v \<longrightarrow>
     (dataPath host p \<longrightarrow> (\<exists>h1 r1. setAtPathH host h r p v = Returns (h1, r1)))
   \<and> (setAtPathH host h r p v = Returns (h', r') \<longrightarrow>
        (\<exists>ext. h' = h @ ext \<and> length ext = length p)
      \<and> (\<forall>q. siblingOf h r q (map toPropertyKey p) \<longrightarrow> walkH h' r' q = walkH h r q)
      \<and> (\<forall>q. diverges q (map toPropertyKey p) \<and> walkH h' r' q \<noteq> HUndefined \<longrightarrow>
             walkH h' r' q = walkH h r q \<and> refBelow (length h) (walkH h' r' q))
      \<and> (\<forall>q. properPrefix q (map toPropertyKey p) \<longrightarrow>
             (\<exists>a. walkH h' r' q = HRef a \<and> length h \<le> a))
      \<and> walkH h' r' (map toPropertyKey p) = v)"
proof
  assume a: "wfHeap h \<and> refBelow (length h) v"
  then have wf: "wfHeap h" and v: "refBelow (length h) v" by simp_all
  have ret: "dataPath host p \<longrightarrow> (\<exists>h1 r1. setAtPathH host h r p v = Returns (h1, r1))"
    by (simp add: setAtPathH_returns)
  have props: "setAtPathH host h r p v = Returns (h', r') \<longrightarrow>
        (\<exists>ext. h' = h @ ext \<and> length ext = length p)
      \<and> (\<forall>q. siblingOf h r q (map toPropertyKey p) \<longrightarrow> walkH h' r' q = walkH h r q)
      \<and> (\<forall>q. diverges q (map toPropertyKey p) \<and> walkH h' r' q \<noteq> HUndefined \<longrightarrow>
             walkH h' r' q = walkH h r q \<and> refBelow (length h) (walkH h' r' q))
      \<and> (\<forall>q. properPrefix q (map toPropertyKey p) \<longrightarrow>
             (\<exists>a. walkH h' r' q = HRef a \<and> length h \<le> a))
      \<and> walkH h' r' (map toPropertyKey p) = v"
  proof
    assume run: "setAtPathH host h r p v = Returns (h', r')"
    have ext: "\<exists>ext. h' = h @ ext \<and> length ext = length p"
      using setAtPathH_extends [OF run] setAtPathH_length [OF run] by auto
    have keep: "\<forall>q. siblingOf h r q (map toPropertyKey p) \<longrightarrow> walkH h' r' q = walkH h r q"
      using sharing_siblings [OF run wf v] by blast
    have share: "\<forall>q. diverges q (map toPropertyKey p) \<and> walkH h' r' q \<noteq> HUndefined \<longrightarrow>
            walkH h' r' q = walkH h r q \<and> refBelow (length h) (walkH h' r' q)"
    proof (intro allI impI)
      fix q
      assume d: "diverges q (map toPropertyKey p) \<and> walkH h' r' q \<noteq> HUndefined"
      with sharing [OF run wf v] have "walkH h' r' q = walkH h r q" by simp
      moreover from wf d [THEN conjunct1] have "refBelow (length h) (walkH h r q)"
        by (rule diverges_walk_refBelow)
      ultimately show "walkH h' r' q = walkH h r q \<and> refBelow (length h) (walkH h' r' q)" by simp
    qed
    have spine: "\<forall>q. properPrefix q (map toPropertyKey p) \<longrightarrow>
            (\<exists>a. walkH h' r' q = HRef a \<and> length h \<le> a)"
      using spine_fresh [OF run wf v] by blast
    have target: "walkH h' r' (map toPropertyKey p) = v"
      using run wf v by (rule setAtPathH_get)
    from ext keep share spine target show
      "(\<exists>ext. h' = h @ ext \<and> length ext = length p)
      \<and> (\<forall>q. siblingOf h r q (map toPropertyKey p) \<longrightarrow> walkH h' r' q = walkH h r q)
      \<and> (\<forall>q. diverges q (map toPropertyKey p) \<and> walkH h' r' q \<noteq> HUndefined \<longrightarrow>
             walkH h' r' q = walkH h r q \<and> refBelow (length h) (walkH h' r' q))
      \<and> (\<forall>q. properPrefix q (map toPropertyKey p) \<longrightarrow>
             (\<exists>a. walkH h' r' q = HRef a \<and> length h \<le> a))
      \<and> walkH h' r' (map toPropertyKey p) = v" by blast
  qed
  from ret props show
    "(dataPath host p \<longrightarrow> (\<exists>h1 r1. setAtPathH host h r p v = Returns (h1, r1)))
   \<and> (setAtPathH host h r p v = Returns (h', r') \<longrightarrow>
        (\<exists>ext. h' = h @ ext \<and> length ext = length p)
      \<and> (\<forall>q. siblingOf h r q (map toPropertyKey p) \<longrightarrow> walkH h' r' q = walkH h r q)
      \<and> (\<forall>q. diverges q (map toPropertyKey p) \<and> walkH h' r' q \<noteq> HUndefined \<longrightarrow>
             walkH h' r' q = walkH h r q \<and> refBelow (length h) (walkH h' r' q))
      \<and> (\<forall>q. properPrefix q (map toPropertyKey p) \<longrightarrow>
             (\<exists>a. walkH h' r' q = HRef a \<and> length h \<le> a))
      \<and> walkH h' r' (map toPropertyKey p) = v)" by blast
qed

lemma sample_run:
  "setAtPathH sampleHost sampleHeap (HRef 2) [SKey ''c'', SIdx 0] (HNum 9) =
     Returns (sampleHeap @ [CObj [(KName ''a'', HRef 0), (KName ''c'', HRef 5)], CArr [HNum 9, HNum 8] []],
              HRef 4)"
  by (simp add: sampleHeap_def key_c key_0 cloneCell_def deref_def put_def setIndex_def
      cellRead_def cellWrite_def cellGet_def sample_names del: toPropertyKey.simps)

theorem path_copying_witness:
  "wfHeap sampleHeap \<and> refBelow (length sampleHeap) (HNum 9)
   \<and> dataPath sampleHost [SKey ''c'', SIdx 0]
   \<and> setAtPathH sampleHost sampleHeap (HRef 2) [SKey ''c'', SIdx 0] (HNum 9) =
       Returns (sampleHeap @ [CObj [(KName ''a'', HRef 0), (KName ''c'', HRef 5)], CArr [HNum 9, HNum 8] []],
                HRef 4)
   \<and> siblingOf sampleHeap (HRef 2) [KName ''c'', KIdx 1] (map toPropertyKey [SKey ''c'', SIdx 0])
   \<and> walkH (sampleHeap @ [CObj [(KName ''a'', HRef 0), (KName ''c'', HRef 5)], CArr [HNum 9, HNum 8] []])
        (HRef 4) [KName ''c'', KIdx 1] = walkH sampleHeap (HRef 2) [KName ''c'', KIdx 1]
   \<and> walkH sampleHeap (HRef 2) [KName ''c'', KIdx 1] = HNum 8
   \<and> siblingOf sampleHeap (HRef 2) [KName ''a''] (map toPropertyKey [SKey ''c'', SIdx 0])
   \<and> walkH (sampleHeap @ [CObj [(KName ''a'', HRef 0), (KName ''c'', HRef 5)], CArr [HNum 9, HNum 8] []])
        (HRef 4) [KName ''a''] = walkH sampleHeap (HRef 2) [KName ''a'']
   \<and> walkH sampleHeap (HRef 2) [KName ''a''] = HRef 0
   \<and> diverges [KName ''a''] (map toPropertyKey [SKey ''c'', SIdx 0])
   \<and> walkH (sampleHeap @ [CObj [(KName ''a'', HRef 0), (KName ''c'', HRef 5)], CArr [HNum 9, HNum 8] []])
        (HRef 4) [KName ''a''] \<noteq> HUndefined
   \<and> refBelow (length sampleHeap)
        (walkH (sampleHeap @ [CObj [(KName ''a'', HRef 0), (KName ''c'', HRef 5)], CArr [HNum 9, HNum 8] []])
           (HRef 4) [KName ''a''])
   \<and> properPrefix [KName ''c''] (map toPropertyKey [SKey ''c'', SIdx 0])
   \<and> walkH (sampleHeap @ [CObj [(KName ''a'', HRef 0), (KName ''c'', HRef 5)], CArr [HNum 9, HNum 8] []])
        (HRef 4) [KName ''c''] = HRef 5
   \<and> walkH (sampleHeap @ [CObj [(KName ''a'', HRef 0), (KName ''c'', HRef 5)], CArr [HNum 9, HNum 8] []])
        (HRef 4) [KName ''c'', KIdx 0] = HNum 9
   \<and> walkH sampleHeap (HRef 2) [KName ''c'', KIdx 0] = HNum 7"
proof -
  let ?h' = "sampleHeap @ [CObj [(KName ''a'', HRef 0), (KName ''c'', HRef 5)], CArr [HNum 9, HNum 8] []]"
  let ?p = "map toPropertyKey [SKey ''c'', SIdx 0]"
  have v: "refBelow (length sampleHeap) (HNum 9)" by simp
  have dp: "dataPath sampleHost [SKey ''c'', SIdx 0]"
    by (simp add: dataPath_def key_c key_0 sample_names del: toPropertyKey.simps)
  have s1: "siblingOf sampleHeap (HRef 2) [KName ''c'', KIdx 1] ?p"
    and s2: "siblingOf sampleHeap (HRef 2) [KName ''a''] ?p"
    by (simp_all add: key_c key_0 sampleHeap_def deref_def cellGet_def del: toPropertyKey.simps)
  have pp: "properPrefix [KName ''c''] ?p"
    by (simp add: key_c key_0 del: toPropertyKey.simps)
  have old1: "walkH sampleHeap (HRef 2) [KName ''c'', KIdx 1] = HNum 8"
    and old2: "walkH sampleHeap (HRef 2) [KName ''a''] = HRef 0"
    and old3: "walkH sampleHeap (HRef 2) [KName ''c'', KIdx 0] = HNum 7"
    by (simp_all add: sampleHeap_def deref_def cellGet_def)
  have spine: "walkH ?h' (HRef 4) [KName ''c''] = HRef 5"
    and target: "walkH ?h' (HRef 4) [KName ''c'', KIdx 0] = HNum 9"
    by (simp_all add: sampleHeap_def deref_def cellGet_def)
  from path_copying [of sampleHeap "HNum 9" sampleHost "[SKey ''c'', SIdx 0]" "HRef 2" ?h' "HRef 4"]
    sample_wf v sample_run
  have keep: "\<forall>q. siblingOf sampleHeap (HRef 2) q ?p \<longrightarrow> walkH ?h' (HRef 4) q = walkH sampleHeap (HRef 2) q"
    by blast
  from keep s1 have k1: "walkH ?h' (HRef 4) [KName ''c'', KIdx 1] = walkH sampleHeap (HRef 2) [KName ''c'', KIdx 1]"
    by blast
  from keep s2 have k2: "walkH ?h' (HRef 4) [KName ''a''] = walkH sampleHeap (HRef 2) [KName ''a'']"
    by blast
  have dv: "diverges [KName ''a''] ?p"
    by (simp add: key_c key_0 del: toPropertyKey.simps)
  have nu: "walkH ?h' (HRef 4) [KName ''a''] \<noteq> HUndefined"
    by (simp add: sampleHeap_def deref_def cellGet_def)
  from path_copying [of sampleHeap "HNum 9" sampleHost "[SKey ''c'', SIdx 0]" "HRef 2" ?h' "HRef 4"]
    sample_wf v sample_run
  have "\<forall>q. diverges q ?p \<and> walkH ?h' (HRef 4) q \<noteq> HUndefined \<longrightarrow>
          walkH ?h' (HRef 4) q = walkH sampleHeap (HRef 2) q \<and> refBelow (length sampleHeap) (walkH ?h' (HRef 4) q)"
    by blast
  with dv nu have rb: "refBelow (length sampleHeap) (walkH ?h' (HRef 4) [KName ''a''])"
    by blast
  from sample_wf v dp sample_run s1 k1 old1 s2 k2 old2 dv nu rb pp spine target old3 show ?thesis by blast
qed

end
